theory Spec2Isabelle
  imports Complex_Main
begin

section \<open>Data model\<close>

text \<open>
  A sheet cell holds either text (a task name) or a number; the empty sentinel written by
  \<open>fill_blanks\<close> is the number \<open>0\<close>.

  NumPy's float64 values are idealised as real numbers throughout.  Where NumPy divides by
  zero or takes the logarithm of a non-positive number it raises nothing and yields
  \<open>inf\<close> or \<open>nan\<close>; the model computes with the total division and logarithm of HOL
  there and raises nothing either.  Statements about the values of expected times are made
  for failure probabilities strictly between 0 and 1 and positive durations, where the two
  agree.
\<close>

datatype cell = Str string | Num real

text \<open>The Python exceptions that the modelled code can raise.\<close>

datatype error = IndexError | KeyError | TypeError | ValueError string

text \<open>
  One row of the task table handed to \<open>main\<close>: the columns \<open>Task\<close>, \<open>Time\<close>,
  \<open>Probability\<close> and the dependency columns \<open>D1, D2, ...\<close> (everything
  \<open>df.iloc[:,3:]\<close> and \<open>df.filter(like='D')\<close> select).  The durations and
  probabilities are the floats that \<open>astype(float)\<close> reads from their columns.  The
  table's index is the default \<open>0..n-1\<close>, so that \<open>df.index + 1\<close> numbers the rows from 1.
\<close>

record task_row =
  Task :: cell
  Time :: real
  Probability :: real
  Deps :: "cell list"

type_synonym dataframe = "task_row list"

type_synonym matrix = "real list list"

section \<open>NumPy and pandas primitives\<close>

definition np_shape :: "matrix \<Rightarrow> nat \<times> nat" where
  "np_shape m = (length m, (case m of [] \<Rightarrow> 0 | r # _ \<Rightarrow> length r))"

definition np_ones :: "nat \<times> nat \<Rightarrow> matrix" where
  "np_ones sh = replicate (fst sh) (replicate (snd sh) 1)"

definition np_repeat_axis0 :: "real list \<Rightarrow> nat \<Rightarrow> matrix" where
  \<comment> \<open>\<open>np.repeat(np.expand_dims(arr, 0), repeats, axis=0)\<close>\<close>
  "np_repeat_axis0 arr repeats = replicate repeats arr"

definition np_tril :: "matrix \<Rightarrow> matrix" where
  "np_tril m = map (\<lambda>(i, row). map (\<lambda>(j, x). if j \<le> i then x else 0) (enumerate 0 row))
                   (enumerate 0 m)"

definition np_triu :: "matrix \<Rightarrow> matrix" where
  "np_triu m = map (\<lambda>(i, row). map (\<lambda>(j, x). if i \<le> j then x else 0) (enumerate 0 row))
                   (enumerate 0 m)"

definition np_fill_diagonal :: "matrix \<Rightarrow> real \<Rightarrow> matrix" where
  "np_fill_diagonal m v = map (\<lambda>(i, row). row[i := v]) (enumerate 0 m)"

definition np_diag :: "real list \<Rightarrow> matrix" where
  "np_diag v = map (\<lambda>i. (replicate (length v) 0)[i := v ! i]) [0..<length v]"

definition mat_add :: "matrix \<Rightarrow> matrix \<Rightarrow> matrix" where
  "mat_add a b = map2 (map2 (+)) a b"

definition np_prod_axis1 :: "matrix \<Rightarrow> real list" where
  "np_prod_axis1 m = map prod_list m"

definition np_sum_axis1 :: "matrix \<Rightarrow> real list" where
  "np_sum_axis1 m = map sum_list m"

definition vec_add :: "real list \<Rightarrow> real list \<Rightarrow> real list" where
  "vec_add a b = map2 (+) a b"

definition vec_sub :: "real list \<Rightarrow> real list \<Rightarrow> real list" where
  "vec_sub a b = map2 (-) a b"

definition vec_mul :: "real list \<Rightarrow> real list \<Rightarrow> real list" where
  "vec_mul a b = map2 (*) a b"

definition vec_div :: "real list \<Rightarrow> real list \<Rightarrow> real list" where
  "vec_div a b = map2 (/) a b"

text \<open>
  \<open>series[labels]\<close> on a pandas Series with the default index: label lookup, raising
  \<open>KeyError\<close> for a label that is not in \<open>0..n-1\<close>.
\<close>

fun series_getitem :: "'a list \<Rightarrow> int list \<Rightarrow> error + 'a list" where
  "series_getitem s [] = Inr []"
| "series_getitem s (k # ks) =
     (if 0 \<le> k \<and> k < int (length s)
      then (case series_getitem s ks of Inl e \<Rightarrow> Inl e | Inr vs \<Rightarrow> Inr (s ! nat k # vs))
      else Inl KeyError)"

section \<open>Expected-time evaluator\<close>

text \<open>
  \<open>np.fill_diagonal\<close> writes into its argument.  The matrices it is given in
  \<open>prob_prod_arr\<close> and \<open>sum_times\<close> are fresh results of \<open>np.tril\<close> and \<open>np.triu\<close>
  that are not read again afterwards, so the model passes the new matrix on.
\<close>

definition expand_to_lower_tri_mat :: "real list \<Rightarrow> matrix" where
  "expand_to_lower_tri_mat arr = np_tril (np_repeat_axis0 arr (length arr))"

definition prob_prod_arr :: "matrix \<Rightarrow> real list \<Rightarrow> real list" where
  "prob_prod_arr prob_mat prob_col =
     (let prob_mat' = np_fill_diagonal prob_mat 0;
          ones = np_triu (np_ones (np_shape prob_mat'));
          ones' = np_fill_diagonal ones 0
      in np_prod_axis1 (mat_add (mat_add ones' prob_mat') (np_diag prob_col)))"

definition sum_times :: "matrix \<Rightarrow> real list" where
  "sum_times time_mat = np_sum_axis1 (np_fill_diagonal time_mat 0)"

definition expected_time_eq ::
  "real list \<Rightarrow> real list \<Rightarrow> real list \<Rightarrow> real list \<Rightarrow> real list \<Rightarrow> real" where
  "expected_time_eq prod_arr sum_arr time_col prob_col prob_comp =
     (let prob_succ = prod_list prob_comp;
          total_time = sum_list time_col;
          exp_time_given_fail_on_task =
            vec_add (vec_add (vec_sub sum_arr (vec_div time_col prob_col))
                             (vec_div time_col (map (\<lambda>p. ln (1 / (1 - p))) prob_col)))
                    time_col;
          prob_fail_on_task = prod_arr
      in prob_succ * total_time
         + sum_list (vec_mul prob_fail_on_task exp_time_given_fail_on_task))"

text \<open>The body of the loop of \<open>get_expected_times\<close>, for one ordering.\<close>

definition expected_time_of_perm :: "int list \<Rightarrow> dataframe \<Rightarrow> error + real" where
  "expected_time_of_perm perm df =
     (case series_getitem (map Probability df) (map (\<lambda>i. i - 1) perm) of
        Inl e \<Rightarrow> Inl e
      | Inr prob_col \<Rightarrow>
          (let prob_comp = map (\<lambda>p. 1 - p) prob_col;
               prob_mat = expand_to_lower_tri_mat prob_comp;
               prod_arr = prob_prod_arr prob_mat prob_col
           in case series_getitem (map Time df) (map (\<lambda>i. i - 1) perm) of
                Inl e \<Rightarrow> Inl e
              | Inr time_col \<Rightarrow>
                  (let time_mat = expand_to_lower_tri_mat time_col;
                       sum_arr = sum_times time_mat
                   in Inr (expected_time_eq prod_arr sum_arr time_col prob_col prob_comp))))"

fun get_expected_times :: "int list list \<Rightarrow> dataframe \<Rightarrow> error + real list" where
  "get_expected_times [] df = Inr []"
| "get_expected_times (perm # perms) df =
     (case expected_time_of_perm perm df of
        Inl e \<Rightarrow> Inl e
      | Inr s \<Rightarrow> (case get_expected_times perms df of
                    Inl e \<Rightarrow> Inl e
                  | Inr rest \<Rightarrow> Inr (s # rest)))"

text \<open>
  The closed form of the specification, with the tasks indexed in the ordering's sequence
  (\<open>t\<close> and \<open>p\<close> are the durations and failure probabilities in attempt order).
\<close>

definition fail_prob :: "real list \<Rightarrow> nat \<Rightarrow> real" where
  "fail_prob p i = p ! i * (\<Prod>k<i. 1 - p ! k)"

definition time_given_fail :: "real list \<Rightarrow> real list \<Rightarrow> nat \<Rightarrow> real" where
  "time_given_fail t p i =
     (\<Sum>j<i. t ! j) - t ! i / p ! i + t ! i / ln (1 / (1 - p ! i)) + t ! i"

definition closed_form_expected_time :: "real list \<Rightarrow> real list \<Rightarrow> real" where
  "closed_form_expected_time t p =
     (\<Prod>i<length p. 1 - p ! i) * (\<Sum>i<length t. t ! i)
     + (\<Sum>i<length p. fail_prob p i * time_given_fail t p i)"


section \<open>Permutation enumerator\<close>

text \<open>
  \<open>itertools.permutations(pool)\<close>: all orderings of the pool, in lexicographic order of
  the positions chosen.  \<open>permutations_n r pool\<close> chooses the remaining \<open>r\<close> elements.
\<close>

fun permutations_n :: "nat \<Rightarrow> 'a list \<Rightarrow> 'a list list" where
  "permutations_n 0 pool = [[]]"
| "permutations_n (Suc r) pool =
     concat (map (\<lambda>i. map ((#) (pool ! i)) (permutations_n r (take i pool @ drop (Suc i) pool)))
                 [0..<length pool])"

definition itertools_permutations :: "'a list \<Rightarrow> 'a list list" where
  "itertools_permutations pool = permutations_n (length pool) pool"

definition gen_perms :: "dataframe \<Rightarrow> int list list" where
  "gen_perms df = (let rows = length df in itertools_permutations (map int [1..<rows + 1]))"

section \<open>Dependency validator\<close>

text \<open>
  \<open>xs[i]\<close> on a Python list or along the first axis of a NumPy array: a negative index
  counts from the end, an index out of range raises \<open>IndexError\<close>.
\<close>

definition py_getitem :: "'a list \<Rightarrow> int \<Rightarrow> error + 'a" where
  "py_getitem xs i =
     (let n = int (length xs); j = (if i < 0 then n + i else i)
      in if 0 \<le> j \<and> j < n then Inr (xs ! nat j) else Inl IndexError)"

text \<open>\<open>elem in prev_ind\<close>: equality of a cell with one of the integers of the list.\<close>

definition cell_in :: "cell \<Rightarrow> int list \<Rightarrow> bool" where
  "cell_in elem prev_ind = list_ex (\<lambda>i. elem = Num (real_of_int i)) prev_ind"

fun check_perm_loop :: "int list \<Rightarrow> int list \<Rightarrow> cell list list \<Rightarrow> error + bool" where
  "check_perm_loop prev_ind [] deps = Inr True"
| "check_perm_loop prev_ind (index # rest) deps =
     (let prev_ind' = prev_ind @ [index]
      in case py_getitem deps (index - 1) of
           Inl e \<Rightarrow> Inl e
         | Inr dep \<Rightarrow>
             if \<not> list_all (\<lambda>elem. cell_in elem prev_ind') dep then Inr False
             else check_perm_loop prev_ind' rest deps)"

definition check_perm :: "int list \<Rightarrow> cell list list \<Rightarrow> error + bool" where
  "check_perm perm deps = check_perm_loop [0] perm deps"

fun validate_perms :: "int list list \<Rightarrow> cell list list \<Rightarrow> error + int list list" where
  "validate_perms [] deps = Inr []"
| "validate_perms (perm # perms) deps =
     (case check_perm perm deps of
        Inl e \<Rightarrow> Inl e
      | Inr ok \<Rightarrow>
          (case validate_perms perms deps of
             Inl e \<Rightarrow> Inl e
           | Inr valid_perms \<Rightarrow> Inr (if ok = True then perm # valid_perms else valid_perms)))"

text \<open>
  Feasibility in the words of the specification: every dependency of the task placed at
  position \<open>k\<close> is the sentinel 0 or occupies a position strictly earlier than \<open>k\<close>.
\<close>

definition feasible :: "int list \<Rightarrow> cell list list \<Rightarrow> bool" where
  "feasible perm deps =
     (\<forall>k<length perm. \<forall>d\<in>set (deps ! nat (perm ! k - 1)).
        d = Num 0 \<or> (\<exists>j<k. d = Num (real_of_int (perm ! j))))"

section \<open>Names and row indices\<close>

text \<open>\<open>dict(pairs)\<close>: a later pair overwrites an earlier one with the same key.\<close>

definition py_dict :: "('k \<times> 'v) list \<Rightarrow> ('k \<rightharpoonup> 'v)" where
  "py_dict kvs = map_of (rev kvs)"

definition name_to_row_dict :: "dataframe \<Rightarrow> (cell \<rightharpoonup> int)" where
  "name_to_row_dict df = py_dict (zip (map Task df) (map int [1..<length df + 1]))"

definition row_to_name_dict :: "dataframe \<Rightarrow> (int \<rightharpoonup> cell)" where
  "row_to_name_dict df = py_dict (zip (map int [1..<length df + 1]) (map Task df))"

text \<open>\<open>DataFrame.replace(d)\<close> on one cell: a cell equal to a key becomes the key's value.\<close>

definition df_replace :: "(cell \<rightharpoonup> int) \<Rightarrow> cell \<Rightarrow> cell" where
  "df_replace d c = (case d c of Some v \<Rightarrow> Num (real_of_int v) | None \<Rightarrow> c)"

text \<open>
  \<open>switch_from_names\<close> assigns into \<open>df.iloc[:,3:]\<close>, so it changes the table object it
  is given; the result is that object's new content.
\<close>

definition switch_from_names :: "dataframe \<Rightarrow> dataframe" where
  "switch_from_names df =
     (let d = name_to_row_dict df
      in map (\<lambda>r. r\<lparr>Deps := map (df_replace d) (Deps r)\<rparr>) df)"

fun dict_lookup_all :: "('k \<rightharpoonup> 'v) \<Rightarrow> 'k list \<Rightarrow> error + 'v list" where
  "dict_lookup_all d [] = Inr []"
| "dict_lookup_all d (k # ks) =
     (case d k of
        None \<Rightarrow> Inl KeyError
      | Some v \<Rightarrow> (case dict_lookup_all d ks of Inl e \<Rightarrow> Inl e | Inr vs \<Rightarrow> Inr (v # vs)))"

definition present_task_names :: "int list \<Rightarrow> dataframe \<Rightarrow> error + cell list" where
  "present_task_names arr df = (let row_to_name = row_to_name_dict df in dict_lookup_all row_to_name arr)"

text \<open>
  \<open>best_df.replace(name_to_row_dict(df)).values.flatten() - 1\<close>: every name that is a key
  becomes its row number minus one; a cell that is no key stays as it is and cannot serve as
  an integer index (\<open>TypeError\<close>).
\<close>

fun names_to_index :: "(cell \<rightharpoonup> int) \<Rightarrow> cell list \<Rightarrow> error + int list" where
  "names_to_index d [] = Inr []"
| "names_to_index d (c # cs) =
     (case d c of
        None \<Rightarrow> Inl TypeError
      | Some v \<Rightarrow> (case names_to_index d cs of Inl e \<Rightarrow> Inl e | Inr is \<Rightarrow> Inr ((v - 1) # is)))"

section \<open>Failure-time simulator\<close>

text \<open>
  The random draws come from the symbulate library: \<open>RV(Exponential(rate)).sim(count)\<close>
  in task step \<open>j\<close> is the parameter \<open>rv j rate count\<close>, the list of values drawn.
  The parameter stands for the calls that return.  The library refuses a rate that is not
  positive with an exception (\<open>rate must be positive\<close>), which happens for a failure
  probability of 0, below 0 or above 1; that exception is not modelled, so the statements
  about the simulator and about the reports of \<open>main\<close> concern the runs in which the
  sampler returns its draws.
\<close>

type_synonym sampler = "nat \<Rightarrow> real \<Rightarrow> nat \<Rightarrow> real list"

definition const_sampler :: "real \<Rightarrow> sampler" where
  \<comment> \<open>a sampler whose every draw is \<open>v\<close>\<close>
  "const_sampler v j rate count = replicate count v"

definition filter_leq :: "real list \<Rightarrow> real \<Rightarrow> real list" where
  \<comment> \<open>symbulate's \<open>Results.filter_leq(v)\<close>: the outcomes that are at most \<open>v\<close>\<close>
  "filter_leq trials v = filter (\<lambda>x. x \<le> v) trials"

fun np_take :: "'a list \<Rightarrow> int list \<Rightarrow> error + 'a list" where
  \<comment> \<open>\<open>values[index]\<close> with an integer index array\<close>
  "np_take xs [] = Inr []"
| "np_take xs (i # is) =
     (case py_getitem xs i of
        Inl e \<Rightarrow> Inl e
      | Inr v \<Rightarrow> (case np_take xs is of Inl e \<Rightarrow> Inl e | Inr vs \<Rightarrow> Inr (v # vs)))"

definition np_hstack :: "real list list \<Rightarrow> error + real list" where
  "np_hstack arrs =
     (if arrs = [] then Inl (ValueError ''need at least one array to concatenate'')
      else Inr (concat arrs))"

definition get_lambdas :: "real list \<Rightarrow> real list \<Rightarrow> real list" where
  "get_lambdas time prob = vec_mul (map (\<lambda>t. 1 / t) time) (map (\<lambda>p. ln (1 / (1 - p))) prob)"

record sim_state =
  totals :: "real list list"
  success_count :: nat
  prior_task_time :: real

text \<open>One pass of the loop of \<open>simulate_failures\<close>, for task step \<open>j\<close>.\<close>

definition sim_step :: "sampler \<Rightarrow> real list \<Rightarrow> sim_state \<Rightarrow> nat \<times> real \<Rightarrow> sim_state" where
  "sim_step rv time s jr =
     (let j = fst jr; rate = snd jr;
          trials = rv j rate (success_count s);
          failed = filter_leq trials (time ! j)
      in \<lparr>totals = totals s @ [map (\<lambda>x. x + prior_task_time s) failed],
          success_count = length trials - length failed,
          prior_task_time = prior_task_time s + time ! j\<rparr>)"

definition simulate_failures :: "sampler \<Rightarrow> dataframe \<Rightarrow> int list \<Rightarrow> error + real list" where
  "simulate_failures rv df index =
     (case np_take (map Probability df) index of
        Inl e \<Rightarrow> Inl e
      | Inr prob \<Rightarrow>
     (case np_take (map Time df) index of
        Inl e \<Rightarrow> Inl e
      | Inr time \<Rightarrow>
          (let lambdas = get_lambdas time prob;
               final = foldl (sim_step rv time)
                         \<lparr>totals = [], success_count = 50000, prior_task_time = 0\<rparr>
                         (enumerate 0 lambdas)
           in np_hstack (totals final))))"

text \<open>
  The simulator in the words of the specification: with \<open>alive\<close> trials entering step
  \<open>j\<close> after \<open>elapsed\<close> time, the trials whose draw is at most the task's duration fail at
  \<open>elapsed\<close> plus the draw, and the others go on to the next task.
\<close>

fun failure_samples :: "sampler \<Rightarrow> nat \<Rightarrow> nat \<Rightarrow> real \<Rightarrow> (real \<times> real) list \<Rightarrow> real list" where
  "failure_samples rv j alive elapsed [] = []"
| "failure_samples rv j alive elapsed ((t, rate) # tasks) =
     (let draws = rv j rate alive;
          failed = filter (\<lambda>x. x \<le> t) draws
      in map (\<lambda>x. elapsed + x) failed
         @ failure_samples rv (Suc j) (alive - length failed) (elapsed + t) tasks)"

section \<open>Optimal-order selector\<close>

fun argmin_loop :: "real \<Rightarrow> nat \<Rightarrow> nat \<Rightarrow> real list \<Rightarrow> nat" where
  "argmin_loop best best_i i [] = best_i"
| "argmin_loop best best_i i (x # xs) =
     (if x < best then argmin_loop x i (Suc i) xs else argmin_loop best best_i (Suc i) xs)"

definition np_argmin :: "real list \<Rightarrow> error + nat" where
  \<comment> \<open>the index of the first occurrence of the minimum\<close>
  "np_argmin xs =
     (case xs of
        [] \<Rightarrow> Inl (ValueError ''attempt to get argmin of an empty sequence'')
      | x # rest \<Rightarrow> Inr (argmin_loop x 0 1 rest))"

text \<open>What \<open>main\<close> shows: the report, with the selected ordering it is computed from.\<close>

record report =
  best_order :: "int list"
  best_df :: "cell list"
  expected_time :: real
  success_prob :: real
  sorted_sums :: "real list"
  hist_vals :: "real list"

text \<open>
  \<open>main\<close> returns the content of the caller's table object after the call together with
  the report or the exception raised.  Its first statement, \<open>df = switch_from_names(df)\<close>,
  writes into the caller's table; nothing after it does.

  For a table without rows the only ordering is the empty one; \<open>best_index\<close> is then an
  empty array that is not of integer type, and indexing with it in \<open>simulate_failures\<close>
  raises \<open>IndexError\<close>.  The statements about reports are made for tables with at least
  one task.
\<close>

definition main :: "sampler \<Rightarrow> dataframe \<Rightarrow> dataframe \<times> (error + report)" where
  "main rv df0 =
     (let df = switch_from_names df0;
          deps = map Deps df;
          times = map Time df;
          probs = map Probability df;
          perms = gen_perms df
      in (df,
          case validate_perms perms deps of Inl e \<Rightarrow> Inl e | Inr valid_perms \<Rightarrow>
          case get_expected_times valid_perms df of Inl e \<Rightarrow> Inl e | Inr all_sums \<Rightarrow>
          let sorted_arr = sort all_sums in
          case np_argmin all_sums of Inl e \<Rightarrow> Inl e | Inr k \<Rightarrow>
          case py_getitem valid_perms (int k) of Inl e \<Rightarrow> Inl e | Inr best \<Rightarrow>
          case present_task_names best df of Inl e \<Rightarrow> Inl e | Inr names \<Rightarrow>
          case names_to_index (name_to_row_dict df) names of Inl e \<Rightarrow> Inl e | Inr best_index \<Rightarrow>
          case (if best_index = [] then Inl IndexError
                else simulate_failures rv df best_index) of Inl e \<Rightarrow> Inl e | Inr hist \<Rightarrow>
          case py_getitem sorted_arr 0 of Inl e \<Rightarrow> Inl e | Inr least \<Rightarrow>
          Inr \<lparr>best_order = best, best_df = names, expected_time = least,
               success_prob = prod_list (map (\<lambda>p. 1 - p) probs),
               sorted_sums = sorted_arr, hist_vals = hist\<rparr>))"

section \<open>Sheet pre-processing\<close>

type_synonym sheet = "cell list list"

definition df_shape :: "sheet \<Rightarrow> nat \<times> nat" where
  "df_shape df = (length df, (case df of [] \<Rightarrow> 0 | r # _ \<Rightarrow> length r))"

text \<open>\<open>(df.values==0).all(axis=axis)\<close>: per row for axis 1, per column for axis 0.\<close>

definition zero_all :: "sheet \<Rightarrow> nat \<Rightarrow> bool list" where
  "zero_all df axis =
     (if axis = 1 then map (list_all (\<lambda>c. c = Num 0)) df
      else map (\<lambda>j. list_all (\<lambda>row. row ! j = Num 0) df) [0..<snd (df_shape df)])"

definition np_where :: "bool list \<Rightarrow> nat list" where
  "np_where bs = filter (\<lambda>i. bs ! i) [0..<length bs]"

text \<open>One pass of the loop of \<open>trim_df\<close>: the entry of \<open>nonzero_shape\<close> for one axis.\<close>

definition nonzero_extent :: "sheet \<Rightarrow> nat \<Rightarrow> nat \<Rightarrow> nat" where
  "nonzero_extent df index axis =
     (let zero_bool = zero_all df axis;
          zero_locs = np_where zero_bool
      in if length zero_locs = 0
         then (if index = 0 then fst (df_shape df) else snd (df_shape df)) - 1
         else hd zero_locs)"

definition trim_df :: "sheet \<Rightarrow> sheet" where
  "trim_df df =
     (let nonzero_shape = [nonzero_extent df 0 1, nonzero_extent df 1 0]
      in map (take (nonzero_shape ! 1)) (take (nonzero_shape ! 0) df))"

section \<open>Example tables\<close>

text \<open>The end-to-end scenario: two independent tasks.\<close>

definition two_tasks :: dataframe where
  "two_tasks =
     [\<lparr>Task = Str ''A'', Time = 2, Probability = 1 / 2, Deps = [Num 0]\<rparr>,
      \<lparr>Task = Str ''B'', Time = 3, Probability = 1 / 5, Deps = [Num 0]\<rparr>]"

text \<open>The dependency-forced scenario: task B depends on task A.\<close>

definition forced_tasks :: dataframe where
  "forced_tasks =
     [\<lparr>Task = Str ''A'', Time = 2, Probability = 1 / 2, Deps = [Num 0]\<rparr>,
      \<lparr>Task = Str ''B'', Time = 3, Probability = 1 / 5, Deps = [Str ''A'']\<rparr>]"


text \<open>A cyclic dependency relation: A depends on B and B depends on A.\<close>

definition cyclic_tasks :: dataframe where
  "cyclic_tasks =
     [\<lparr>Task = Str ''A'', Time = 2, Probability = 1 / 2, Deps = [Str ''B'']\<rparr>,
      \<lparr>Task = Str ''B'', Time = 3, Probability = 1 / 5, Deps = [Str ''A'']\<rparr>]"

text \<open>A single task that is certain to fail.\<close>

definition certain_failure :: dataframe where
  "certain_failure = [\<lparr>Task = Str ''A'', Time = 2, Probability = 1, Deps = [Num 0]\<rparr>]"

text \<open>Twelve tasks without dependencies.\<close>

definition twelve_tasks :: dataframe where
  "twelve_tasks =
     map (\<lambda>name. \<lparr>Task = Str name, Time = 1, Probability = 1 / 2, Deps = [Num 0]\<rparr>)
       [''T01'', ''T02'', ''T03'', ''T04'', ''T05'', ''T06'',
        ''T07'', ''T08'', ''T09'', ''T10'', ''T11'', ''T12'']"

section \<open>Auxiliary notions for the proofs\<close>

text \<open>A matrix given by its entries.\<close>

definition tab :: "nat \<Rightarrow> nat \<Rightarrow> (nat \<Rightarrow> nat \<Rightarrow> real) \<Rightarrow> matrix" where
  "tab r c f = map (\<lambda>i. map (\<lambda>j. f i j) [0..<c]) [0..<r]"

text \<open>The closed-form expected time of an ordering of a table.\<close>

definition perm_time :: "dataframe \<Rightarrow> int list \<Rightarrow> real" where
  "perm_time df perm =
     closed_form_expected_time (map (\<lambda>i. Time (df ! nat (i - 1))) perm)
                               (map (\<lambda>i. Probability (df ! nat (i - 1))) perm)"

section \<open>The matrix computation and the closed form\<close>

lemma map_enumerate0: "map (\<lambda>(j, x). f j x) (enumerate 0 xs) = map (\<lambda>j. f j (xs ! j)) [0..<length xs]"
  by (rule nth_equalityI) (simp_all add: nth_enumerate_eq)

lemma length_tab [simp]: "length (tab r c f) = r"
  by (simp add: tab_def)

lemma nth_tab [simp]: "i < r \<Longrightarrow> tab r c f ! i = map (f i) [0..<c]"
  by (simp add: tab_def)

lemma tab_cong: "(\<And>i j. i < r \<Longrightarrow> j < c \<Longrightarrow> f i j = g i j) \<Longrightarrow> tab r c f = tab r c g"
  by (simp add: tab_def)

lemma np_tril_tab: "np_tril (tab r c f) = tab r c (\<lambda>i j. if j \<le> i then f i j else 0)"
  unfolding np_tril_def map_enumerate0
  by (rule nth_equalityI) (simp_all add: map_enumerate0)

lemma np_triu_tab: "np_triu (tab r c f) = tab r c (\<lambda>i j. if i \<le> j then f i j else 0)"
  unfolding np_triu_def map_enumerate0
  by (rule nth_equalityI) (simp_all add: map_enumerate0)

lemma np_fill_diagonal_tab:
  "np_fill_diagonal (tab r c f) v = tab r c (\<lambda>i j. if i = j then v else f i j)"
  unfolding np_fill_diagonal_def map_enumerate0
  apply (rule nth_equalityI)
   apply simp
  apply simp
  apply (rule nth_equalityI)
   apply (simp_all add: nth_list_update)
  done

lemma mat_add_tab: "mat_add (tab r c f) (tab r c g) = tab r c (\<lambda>i j. f i j + g i j)"
  unfolding mat_add_def
  apply (rule nth_equalityI)
   apply simp
  apply simp
  apply (rule nth_equalityI)
   apply simp_all
  done

lemma np_diag_tab: "np_diag v = tab (length v) (length v) (\<lambda>i j. if i = j then v ! i else 0)"
  unfolding np_diag_def
  apply (rule nth_equalityI)
   apply simp
  apply simp
  apply (rule nth_equalityI)
   apply (simp_all add: nth_list_update)
  done

lemma np_ones_tab: "np_ones (r, c) = tab r c (\<lambda>i j. 1)"
  unfolding np_ones_def
  apply (rule nth_equalityI)
   apply simp
  apply simp
  apply (rule nth_equalityI)
   apply (simp_all)
  done

lemma np_repeat_axis0_tab: "np_repeat_axis0 arr k = tab k (length arr) (\<lambda>i j. arr ! j)"
  unfolding np_repeat_axis0_def
  apply (rule nth_equalityI)
   apply simp
  apply simp
  apply (rule nth_equalityI)
   apply (simp_all)
  done

lemma np_shape_tab: "0 < r \<Longrightarrow> np_shape (tab r c f) = (r, c)"
  by (cases r) (simp_all add: np_shape_def tab_def upt_conv_Cons del: upt_Suc)

lemma expand_tab:
  "expand_to_lower_tri_mat arr = tab (length arr) (length arr) (\<lambda>i j. if j \<le> i then arr ! j else 0)"
  by (simp add: expand_to_lower_tri_mat_def np_repeat_axis0_tab np_tril_tab)

lemma prod_list_upt: "prod_list (map h [0..<n]) = (\<Prod>j<n. h j :: real)"
  by (simp add: prod.distinct_set_conv_list [symmetric] atLeast0LessThan)

lemma sum_list_upt0: "sum_list (map h [0..<n]) = (\<Sum>j<n. h j :: real)"
  by (simp add: sum.distinct_set_conv_list [symmetric] atLeast0LessThan)


lemma prod_row:
  assumes "i < (n::nat)"
  shows "(\<Prod>j<n. (if j < i then c j else if j = i then q else (1::real))) = q * (\<Prod>k<i. c k)"
proof -
  have a: "{..<n} \<inter> {x. x < i} = {..<i}" using assms by auto
  have b: "i \<in> {..<n} \<inter> - {x. x < i}" using assms by auto
  show ?thesis
    by (simp add: prod.If_cases a prod.delta b del: Int_iff)
qed

lemma sum_row:
  assumes "i < (n::nat)"
  shows "(\<Sum>j<n. (if j < i then c j else (0::real))) = (\<Sum>k<i. c k)"
proof -
  have a: "{..<n} \<inter> {x. x < i} = {..<i}" using assms by auto
  show ?thesis
    by (simp add: sum.If_cases a)
qed


lemma prob_prod_arr_expand:
  assumes "length c = length p"
  shows "prob_prod_arr (expand_to_lower_tri_mat c) p
         = map (\<lambda>i. p ! i * (\<Prod>k<i. c ! k)) [0..<length p]"
proof (cases "length p = 0")
  case True
  with assms show ?thesis
    by (simp add: prob_prod_arr_def expand_to_lower_tri_mat_def np_repeat_axis0_def np_tril_def
        np_fill_diagonal_def np_shape_def np_ones_def np_triu_def mat_add_def np_diag_def
        np_prod_axis1_def)
next
  case False
  then have pos: "0 < length p" by simp
  let ?n = "length p"
  have "prob_prod_arr (expand_to_lower_tri_mat c) p
        = np_prod_axis1 (tab ?n ?n (\<lambda>i j. (if i = j then 0 else if i \<le> j then 1 else 0)
              + (if i = j then 0 else if j \<le> i then c ! j else 0)
              + (if i = j then p ! i else 0)))"
    using assms pos
    by (simp add: prob_prod_arr_def expand_tab np_fill_diagonal_tab np_shape_tab np_ones_tab
        np_triu_tab mat_add_tab np_diag_tab Let_def)
  also have "\<dots> = np_prod_axis1 (tab ?n ?n (\<lambda>i j. if j < i then c ! j else if j = i then p ! i else 1))"
    by (rule arg_cong [where f = np_prod_axis1], rule tab_cong) auto
  also have "\<dots> = map (\<lambda>i. p ! i * (\<Prod>k<i. c ! k)) [0..<?n]"
    by (simp add: np_prod_axis1_def tab_def prod_list_upt prod_row o_def)
  finally show ?thesis .
qed

lemma sum_times_expand:
  "sum_times (expand_to_lower_tri_mat t) = map (\<lambda>i. \<Sum>j<i. t ! j) [0..<length t]"
proof -
  let ?n = "length t"
  have "sum_times (expand_to_lower_tri_mat t)
        = np_sum_axis1 (tab ?n ?n (\<lambda>i j. if i = j then 0 else if j \<le> i then t ! j else 0))"
    by (simp add: sum_times_def expand_tab np_fill_diagonal_tab)
  also have "\<dots> = np_sum_axis1 (tab ?n ?n (\<lambda>i j. if j < i then t ! j else 0))"
    by (rule arg_cong [where f = np_sum_axis1], rule tab_cong) auto
  also have "\<dots> = map (\<lambda>i. \<Sum>j<i. t ! j) [0..<?n]"
    by (simp add: np_sum_axis1_def tab_def sum_list_upt0 sum_row o_def)
  finally show ?thesis .
qed

lemma map2_upt: "map2 f (map g [0..<n]) (map h [0..<n]) = map (\<lambda>i. f (g i) (h i)) [0..<n]"
  by (rule nth_equalityI) simp_all

lemma expected_time_eq_closed_form:
  assumes "length t = length p"
  shows "expected_time_eq (prob_prod_arr (expand_to_lower_tri_mat (map (\<lambda>q. 1 - q) p)) p)
           (sum_times (expand_to_lower_tri_mat t)) t p (map (\<lambda>q. 1 - q) p)
         = closed_form_expected_time t p"
proof -
  let ?n = "length p"
  have inner: "vec_add (vec_add (vec_sub (sum_times (expand_to_lower_tri_mat t)) (vec_div t p))
                  (vec_div t (map (\<lambda>q. ln (1 / (1 - q))) p))) t
               = map (time_given_fail t p) [0..<?n]"
    unfolding sum_times_expand vec_add_def vec_sub_def vec_div_def
    by (rule nth_equalityI) (simp_all add: assms time_given_fail_def)
  have prods: "prob_prod_arr (expand_to_lower_tri_mat (map (\<lambda>q. 1 - q) p)) p
               = map (fail_prob p) [0..<?n]"
    by (simp add: prob_prod_arr_expand fail_prob_def)
  have succ: "prod_list (map (\<lambda>q. 1 - q) p) = (\<Prod>i<?n. 1 - p ! i)"
  proof -
    have "map (\<lambda>q. 1 - q) p = map (\<lambda>i. 1 - p ! i) [0..<?n]"
      by (rule nth_equalityI) simp_all
    then show ?thesis by (simp only: prod_list_upt)
  qed
  have tot: "sum_list t = (\<Sum>i<length t. t ! i)"
  proof -
    have "t = map (\<lambda>i. t ! i) [0..<length t]"
      by (rule nth_equalityI) simp_all
    then have "sum_list t = sum_list (map (\<lambda>i. t ! i) [0..<length t])" by simp
    then show ?thesis by (simp only: sum_list_upt0)
  qed
  show ?thesis
    unfolding expected_time_eq_def Let_def inner prods vec_mul_def map2_upt succ tot
      closed_form_expected_time_def
    by (simp add: sum_list_upt0)
qed

lemma series_getitem_in_range:
  "\<forall>k\<in>set ks. 0 \<le> k \<and> k < int (length s) \<Longrightarrow>
   series_getitem s ks = Inr (map (\<lambda>k. s ! nat k) ks)"
  by (induction ks) simp_all

lemma expected_time_of_perm_closed_form:
  assumes "\<forall>i\<in>set perm. 1 \<le> i \<and> i \<le> int (length df)"
  shows "expected_time_of_perm perm df
         = Inr (closed_form_expected_time (map (\<lambda>i. Time (df ! nat (i - 1))) perm)
                                          (map (\<lambda>i. Probability (df ! nat (i - 1))) perm))"
proof -
  have r: "\<forall>k\<in>set (map (\<lambda>i. i - 1) perm). 0 \<le> k \<and> k < int (length df)"
    using assms by auto
  have a: "series_getitem (map Probability df) (map (\<lambda>i. i - 1) perm)
           = Inr (map (\<lambda>i. Probability (df ! nat (i - 1))) perm)"
    using r by (subst series_getitem_in_range) (auto simp: o_def)
  have b: "series_getitem (map Time df) (map (\<lambda>i. i - 1) perm)
           = Inr (map (\<lambda>i. Time (df ! nat (i - 1))) perm)"
    using r by (subst series_getitem_in_range) (auto simp: o_def)
  show ?thesis
    unfolding expected_time_of_perm_def a b
    using expected_time_eq_closed_form [of "map (\<lambda>i. Time (df ! nat (i - 1))) perm"
        "map (\<lambda>i. Probability (df ! nat (i - 1))) perm"]
    by (simp add: Let_def)
qed


lemma telescope_fail_prob:
  "(\<Prod>i<(n::nat). 1 - f i) + (\<Sum>i<n. f i * (\<Prod>k<i. 1 - f k)) = (1::real)"
  by (induction n) (simp_all add: algebra_simps)

lemma weights_sum:
  "prod_list (map (\<lambda>q. 1 - q) p)
     + sum_list (prob_prod_arr (expand_to_lower_tri_mat (map (\<lambda>q. 1 - q) p)) p) = 1"
proof -
  let ?n = "length p"
  have succ: "prod_list (map (\<lambda>q. 1 - q) p) = (\<Prod>i<?n. 1 - p ! i)"
  proof -
    have "map (\<lambda>q. 1 - q) p = map (\<lambda>i. 1 - p ! i) [0..<?n]"
      by (rule nth_equalityI) simp_all
    then show ?thesis by (simp only: prod_list_upt)
  qed
  have "sum_list (prob_prod_arr (expand_to_lower_tri_mat (map (\<lambda>q. 1 - q) p)) p)
        = (\<Sum>i<?n. p ! i * (\<Prod>k<i. map (\<lambda>q. 1 - q) p ! k))"
    by (simp add: prob_prod_arr_expand sum_list_upt0)
  also have "\<dots> = (\<Sum>i<?n. p ! i * (\<Prod>k<i. 1 - p ! k))"
    by (rule sum.cong) simp_all
  finally show ?thesis
    using telescope_fail_prob [of "\<lambda>i. p ! i" ?n] by (simp add: succ)
qed


section \<open>The enumerator and the validator\<close>

lemma permutations_n_subset:
  "q \<in> set (permutations_n r pool) \<Longrightarrow> set q \<subseteq> set pool"
proof (induction r arbitrary: pool q)
  case 0
  then show ?case by simp
next
  case (Suc r)
  then obtain i q' where i: "i < length pool" and q: "q = pool ! i # q'"
    and q': "q' \<in> set (permutations_n r (take i pool @ drop (Suc i) pool))"
    by auto
  have "set q' \<subseteq> set (take i pool @ drop (Suc i) pool)" using Suc.IH [OF q'] .
  also have "\<dots> \<subseteq> set pool"
    using set_take_subset [of i pool] set_drop_subset [of "Suc i" pool] by auto
  finally show ?case using i q by auto
qed

lemma length_permutations_n:
  "length pool = r \<Longrightarrow> length (permutations_n r pool) = fact r"
proof (induction r arbitrary: pool)
  case 0
  then show ?case by simp
next
  case (Suc r)
  have each: "\<And>i. i < length pool \<Longrightarrow>
      length (permutations_n r (take i pool @ drop (Suc i) pool)) = fact r"
    using Suc.prems by (intro Suc.IH) auto
  have "length (permutations_n (Suc r) pool)
        = sum_list (map (\<lambda>i. length (permutations_n r (take i pool @ drop (Suc i) pool)))
                        [0..<length pool])"
    by (simp add: length_concat o_def)
  also have "\<dots> = sum_list (map (\<lambda>i. fact r) [0..<length pool])"
    by (rule arg_cong [where f = sum_list], rule map_cong) (simp_all add: each)
  also have "\<dots> = length pool * fact r"
    by (simp add: sum_list_triv)
  finally show ?case using Suc.prems by simp
qed

lemma length_gen_perms: "length (gen_perms df) = fact (length df)"
  by (simp add: gen_perms_def Let_def itertools_permutations_def length_permutations_n
      del: upt_Suc)

lemma gen_perms_in_range:
  assumes "perm \<in> set (gen_perms df)"
  shows "\<forall>i\<in>set perm. 1 \<le> i \<and> i \<le> int (length df)"
proof -
  have "set perm \<subseteq> set (map int [1..<length df + 1])"
    using assms unfolding gen_perms_def Let_def itertools_permutations_def
    by (rule permutations_n_subset)
  then show ?thesis by auto
qed

lemma py_getitem_in_range:
  "0 \<le> i \<Longrightarrow> i < int (length xs) \<Longrightarrow> py_getitem xs i = Inr (xs ! nat i)"
  by (simp add: py_getitem_def Let_def)

lemma cell_in_iff: "cell_in c prev \<longleftrightarrow> (\<exists>i\<in>set prev. c = Num (real_of_int i))"
  by (simp add: cell_in_def list_ex_iff)

lemma check_perm_loop_in_range:
  assumes "\<forall>i\<in>set rest. 1 \<le> i \<and> i \<le> int (length deps)"
  shows "check_perm_loop prev rest deps
         = Inr (\<forall>k<length rest. \<forall>d\<in>set (deps ! nat (rest ! k - 1)).
                  cell_in d (prev @ take (Suc k) rest))"
  using assms
proof (induction rest arbitrary: prev)
  case Nil
  show ?case by simp
next
  case (Cons index rest)
  have g: "py_getitem deps (index - 1) = Inr (deps ! nat (index - 1))"
    using Cons.prems by (intro py_getitem_in_range) auto
  have ih: "check_perm_loop (prev @ [index]) rest deps
            = Inr (\<forall>k<length rest. \<forall>d\<in>set (deps ! nat (rest ! k - 1)).
                     cell_in d ((prev @ [index]) @ take (Suc k) rest))"
    using Cons.prems by (intro Cons.IH) auto
  show ?case
    unfolding check_perm_loop.simps Let_def g sum.case ih
    by (auto simp: list_all_iff All_less_Suc2)
qed

lemma check_perm_in_range:
  assumes "\<forall>i\<in>set perm. 1 \<le> i \<and> i \<le> int (length deps)"
  shows "check_perm perm deps
         = Inr (\<forall>k<length perm. \<forall>d\<in>set (deps ! nat (perm ! k - 1)).
                  cell_in d (0 # take (Suc k) perm))"
  using check_perm_loop_in_range [OF assms, of "[0]"] by (simp add: check_perm_def)

lemma validate_perms_in_range:
  assumes "\<forall>perm\<in>set perms. \<forall>i\<in>set perm. 1 \<le> i \<and> i \<le> int (length deps)"
  shows "validate_perms perms deps = Inr (filter (\<lambda>perm. check_perm perm deps = Inr True) perms)"
  using assms
proof (induction perms)
  case Nil
  show ?case by simp
next
  case (Cons perm perms)
  have "\<forall>i\<in>set perm. 1 \<le> i \<and> i \<le> int (length deps)" using Cons.prems by simp
  from check_perm_in_range [OF this] obtain b where b: "check_perm perm deps = Inr b" by blast
  have ih: "validate_perms perms deps = Inr (filter (\<lambda>perm. check_perm perm deps = Inr True) perms)"
    using Cons.prems by (intro Cons.IH) simp
  show ?case by (simp add: b ih)
qed

lemma length_permutations_n_elem:
  "q \<in> set (permutations_n r pool) \<Longrightarrow> r \<le> length pool \<Longrightarrow> length q = r"
proof (induction r arbitrary: pool q)
  case 0
  then show ?case by simp
next
  case (Suc r)
  then obtain i q' where i: "i < length pool" and q: "q = pool ! i # q'"
    and q': "q' \<in> set (permutations_n r (take i pool @ drop (Suc i) pool))"
    by auto
  have "length q' = r" using Suc.prems i by (intro Suc.IH [OF q']) auto
  then show ?case using q by simp
qed

lemma length_gen_perms_elem: "perm \<in> set (gen_perms df) \<Longrightarrow> length perm = length df"
  unfolding gen_perms_def Let_def itertools_permutations_def
  by (drule length_permutations_n_elem) (simp_all del: upt_Suc)

lemma argmin_loop_spec:
  assumes "ys = pre @ xs" "length pre = i" "bi < i" "b = ys ! bi"
    "\<forall>j<i. b \<le> ys ! j" "\<forall>j<bi. b < ys ! j"
  shows "argmin_loop b bi i xs < length ys
         \<and> (\<forall>j<length ys. ys ! argmin_loop b bi i xs \<le> ys ! j)
         \<and> (\<forall>j<argmin_loop b bi i xs. ys ! argmin_loop b bi i xs < ys ! j)"
  using assms
proof (induction xs arbitrary: pre i bi b)
  case Nil
  then show ?case by simp
next
  case (Cons x xs)
  have x: "ys ! i = x" using Cons.prems by (simp add: nth_append)
  show ?case
  proof (cases "x < b")
    case True
    have "argmin_loop x i (Suc i) xs < length ys
         \<and> (\<forall>j<length ys. ys ! argmin_loop x i (Suc i) xs \<le> ys ! j)
         \<and> (\<forall>j<argmin_loop x i (Suc i) xs. ys ! argmin_loop x i (Suc i) xs < ys ! j)"
    proof (rule Cons.IH [where pre = "pre @ [x]"])
      show "ys = (pre @ [x]) @ xs" using Cons.prems by simp
      show "length (pre @ [x]) = Suc i" using Cons.prems by simp
      show "i < Suc i" by simp
      show "x = ys ! i" using x by simp
      show "\<forall>j<Suc i. x \<le> ys ! j" using Cons.prems True x by (auto simp: less_Suc_eq)
      show "\<forall>j<i. x < ys ! j" using Cons.prems True by auto
    qed
    then show ?thesis using True by simp
  next
    case False
    have "argmin_loop b bi (Suc i) xs < length ys
         \<and> (\<forall>j<length ys. ys ! argmin_loop b bi (Suc i) xs \<le> ys ! j)
         \<and> (\<forall>j<argmin_loop b bi (Suc i) xs. ys ! argmin_loop b bi (Suc i) xs < ys ! j)"
    proof (rule Cons.IH [where pre = "pre @ [x]"])
      show "ys = (pre @ [x]) @ xs" using Cons.prems by simp
      show "length (pre @ [x]) = Suc i" using Cons.prems by simp
      show "bi < Suc i" using Cons.prems by simp
      show "b = ys ! bi" using Cons.prems by simp
      show "\<forall>j<Suc i. b \<le> ys ! j" using Cons.prems False x by (auto simp: less_Suc_eq)
      show "\<forall>j<bi. b < ys ! j" using Cons.prems by simp
    qed
    then show ?thesis using False by simp
  qed
qed

lemma np_argmin_spec:
  assumes "xs \<noteq> []"
  shows "\<exists>k. np_argmin xs = Inr k \<and> k < length xs
             \<and> (\<forall>j<length xs. xs ! k \<le> xs ! j) \<and> (\<forall>j<k. xs ! k < xs ! j)"
proof -
  from assms obtain x rest where xs: "xs = x # rest" by (cases xs) auto
  have "argmin_loop x 0 1 rest < length xs
         \<and> (\<forall>j<length xs. xs ! argmin_loop x 0 1 rest \<le> xs ! j)
         \<and> (\<forall>j<argmin_loop x 0 1 rest. xs ! argmin_loop x 0 1 rest < xs ! j)"
    by (rule argmin_loop_spec [where pre = "[x]"]) (simp_all add: xs)
  then show ?thesis by (simp add: np_argmin_def xs)
qed

lemma np_argmin_empty:
  "np_argmin [] = Inl (ValueError ''attempt to get argmin of an empty sequence'')"
  by (simp add: np_argmin_def)

lemma sort_head_min:
  assumes "k < length (xs :: real list)" "\<forall>j<length xs. xs ! k \<le> xs ! j"
  shows "sort xs ! 0 = xs ! k"
proof -
  have "0 < length (sort xs)" using assms(1) by (cases xs) simp_all
  then have "sort xs ! 0 \<in> set (sort xs)" by (rule nth_mem)
  then have "sort xs ! 0 \<in> set xs" by simp
  then obtain j where "j < length xs" "sort xs ! 0 = xs ! j" by (auto simp: in_set_conv_nth)
  then have ge: "xs ! k \<le> sort xs ! 0" using assms by simp
  have "xs ! k \<in> set (sort xs)" using assms by simp
  then obtain m where m: "m < length (sort xs)" "sort xs ! m = xs ! k"
    unfolding in_set_conv_nth by blast
  have "sort xs ! 0 \<le> sort xs ! m"
    using sorted_sort [of xs] m by (intro sorted_nth_mono) simp_all
  then show ?thesis using ge m by simp
qed

section \<open>Names, gathers and the outcome of \<open>main\<close>\<close>

lemma length_switch_from_names [simp]: "length (switch_from_names df) = length df"
  by (simp add: switch_from_names_def Let_def)

lemma switch_from_names_cols [simp]:
  "map Task (switch_from_names df) = map Task df"
  "map Time (switch_from_names df) = map Time df"
  "map Probability (switch_from_names df) = map Probability df"
  by (simp_all add: switch_from_names_def Let_def o_def)

lemma py_dict_distinct_nth:
  assumes "distinct ks" "length ks = length vs" "j < length ks"
  shows "py_dict (zip ks vs) (ks ! j) = Some (vs ! j)"
proof -
  have "(ks ! j, vs ! j) \<in> set (rev (zip ks vs))"
    using assms by (auto simp: set_zip)
  moreover have "distinct (map fst (rev (zip ks vs)))"
    using assms by (simp add: rev_map [symmetric])
  ultimately show ?thesis
    unfolding py_dict_def by (rule map_of_is_SomeI [rotated])
qed

lemma py_dict_key:
  assumes "k \<in> set ks" "length ks = length vs"
  shows "\<exists>v\<in>set vs. py_dict (zip ks vs) k = Some v"
proof -
  from in_set_impl_in_set_zip1 [OF assms(2) assms(1)]
  obtain y where "(k, y) \<in> set (zip ks vs)" by blast
  then have "k \<in> fst ` set (rev (zip ks vs))" by force
  then have "map_of (rev (zip ks vs)) k \<noteq> None" by (simp only: map_of_eq_None_iff not_not)
  then obtain v where v: "map_of (rev (zip ks vs)) k = Some v" by blast
  then have "(k, v) \<in> set (zip ks vs)" by (auto dest: map_of_SomeD)
  then have "v \<in> set vs" by (rule set_zip_rightD)
  then show ?thesis using v by (auto simp: py_dict_def)
qed

lemma dict_lookup_all_total:
  assumes "\<forall>k\<in>set ks. \<exists>v. d k = Some v"
  shows "dict_lookup_all d ks = Inr (map (\<lambda>k. the (d k)) ks)"
  using assms by (induction ks) auto

lemma names_to_index_total:
  assumes "\<forall>c\<in>set cs. \<exists>v. d c = Some v"
  shows "names_to_index d cs = Inr (map (\<lambda>c. the (d c) - 1) cs)"
  using assms by (induction cs) auto

lemma np_take_in_range:
  assumes "\<forall>i\<in>set idx. 0 \<le> i \<and> i < int (length xs)"
  shows "np_take xs idx = Inr (map (\<lambda>i. xs ! nat i) idx)"
  using assms by (induction idx) (simp_all add: py_getitem_in_range)

lemma row_to_name_in_range:
  assumes "1 \<le> i" "i \<le> int (length df)"
  shows "row_to_name_dict df i = Some (Task (df ! nat (i - 1)))"
proof -
  let ?ks = "map int [1..<length df + 1]"
  have j: "nat (i - 1) < length ?ks" using assms by (simp del: upt_Suc)
  have "py_dict (zip ?ks (map Task df)) (?ks ! nat (i - 1)) = Some (map Task df ! nat (i - 1))"
    using j by (intro py_dict_distinct_nth) (simp_all add: distinct_map del: upt_Suc)
  moreover have "?ks ! nat (i - 1) = i" using assms j by (simp del: upt_Suc)
  ultimately show ?thesis using j by (simp add: row_to_name_dict_def del: upt_Suc)
qed

lemma present_task_names_in_range:
  assumes "\<forall>i\<in>set arr. 1 \<le> i \<and> i \<le> int (length df)"
  shows "present_task_names arr df = Inr (map (\<lambda>i. Task (df ! nat (i - 1))) arr)"
proof -
  have "dict_lookup_all (row_to_name_dict df) arr = Inr (map (\<lambda>k. the (row_to_name_dict df k)) arr)"
    using assms by (intro dict_lookup_all_total) (simp add: row_to_name_in_range)
  also have "map (\<lambda>k. the (row_to_name_dict df k)) arr = map (\<lambda>i. Task (df ! nat (i - 1))) arr"
    using assms by (intro map_cong) (simp_all add: row_to_name_in_range)
  finally show ?thesis by (simp add: present_task_names_def)
qed

lemma name_to_row_task:
  assumes "c \<in> set (map Task df)"
  shows "\<exists>v. name_to_row_dict df c = Some v \<and> 1 \<le> v \<and> v \<le> int (length df)"
proof -
  from py_dict_key [OF assms, of "map int [1..<length df + 1]"]
  obtain v where "v \<in> set (map int [1..<length df + 1])"
    "py_dict (zip (map Task df) (map int [1..<length df + 1])) c = Some v"
    by (auto simp del: upt_Suc)
  then show ?thesis by (auto simp: name_to_row_dict_def simp del: upt_Suc)
qed

lemma length_totals_foldl:
  "length (totals (foldl (sim_step rv time) s xs)) = length (totals s) + length xs"
  by (induction xs arbitrary: s) (simp_all add: sim_step_def Let_def)

lemma simulate_failures_in_range:
  assumes "\<forall>i\<in>set index. 0 \<le> i \<and> i < int (length df)" "index \<noteq> []"
  shows "\<exists>hist. simulate_failures rv df index = Inr hist"
proof -
  let ?time = "map (\<lambda>i. map Time df ! nat i) index"
  let ?prob = "map (\<lambda>i. map Probability df ! nat i) index"
  have a: "np_take (map Probability df) index = Inr ?prob"
    using assms by (intro np_take_in_range) simp
  have b: "np_take (map Time df) index = Inr ?time"
    using assms by (intro np_take_in_range) simp
  have "length (get_lambdas ?time ?prob) = length index"
    by (simp add: get_lambdas_def vec_mul_def)
  then have "length (totals (foldl (sim_step rv ?time)
                \<lparr>totals = [], success_count = 50000, prior_task_time = 0\<rparr>
                (enumerate 0 (get_lambdas ?time ?prob)))) = length index"
    by (simp add: length_totals_foldl)
  then have "totals (foldl (sim_step rv ?time)
                \<lparr>totals = [], success_count = 50000, prior_task_time = 0\<rparr>
                (enumerate 0 (get_lambdas ?time ?prob))) \<noteq> []"
    using assms(2) by auto
  then show ?thesis
    unfolding simulate_failures_def a b by (simp add: Let_def np_hstack_def)
qed

lemma get_expected_times_in_range:
  assumes "\<forall>perm\<in>set perms. \<forall>i\<in>set perm. 1 \<le> i \<and> i \<le> int (length df)"
  shows "get_expected_times perms df = Inr (map (perm_time df) perms)"
  using assms
proof (induction perms)
  case Nil
  show ?case by simp
next
  case (Cons perm perms)
  then have "\<forall>i\<in>set perm. 1 \<le> i \<and> i \<le> int (length df)" by simp
  then show ?case
    using Cons by (simp add: expected_time_of_perm_closed_form perm_time_def)
qed

lemma validate_gen_perms:
  "validate_perms (gen_perms df) (map Deps df)
   = Inr (filter (\<lambda>perm. check_perm perm (map Deps df) = Inr True) (gen_perms df))"
  by (rule validate_perms_in_range) (use gen_perms_in_range in auto)

lemma main_fst: "fst (main rv df) = switch_from_names df"
  by (simp add: main_def Let_def)

lemma main_no_valid:
  assumes "validate_perms (gen_perms (switch_from_names df)) (map Deps (switch_from_names df)) = Inr []"
  shows "snd (main rv df) = Inl (ValueError ''attempt to get argmin of an empty sequence'')"
  using assms by (simp add: main_def Let_def np_argmin_def)

lemma main_some_valid:
  assumes v: "validate_perms (gen_perms (switch_from_names df)) (map Deps (switch_from_names df))
              = Inr valid"
    and ne: "valid \<noteq> []" and df: "df \<noteq> []"
  shows "\<exists>k hist. np_argmin (map (perm_time (switch_from_names df)) valid) = Inr k
           \<and> snd (main rv df)
             = Inr \<lparr>best_order = valid ! k,
                    best_df = map (\<lambda>i. Task (df ! nat (i - 1))) (valid ! k),
                    expected_time = sort (map (perm_time (switch_from_names df)) valid) ! 0,
                    success_prob = prod_list (map (\<lambda>p. 1 - p) (map Probability df)),
                    sorted_sums = sort (map (perm_time (switch_from_names df)) valid),
                    hist_vals = hist\<rparr>"
proof -
  let ?df = "switch_from_names df"
  let ?sums = "map (perm_time ?df) valid"
  have valid: "valid = filter (\<lambda>perm. check_perm perm (map Deps ?df) = Inr True) (gen_perms ?df)"
    using v by (simp add: validate_gen_perms)
  have sub: "set valid \<subseteq> set (gen_perms ?df)" by (auto simp: valid)
  have rng: "\<forall>perm\<in>set valid. \<forall>i\<in>set perm. 1 \<le> i \<and> i \<le> int (length ?df)"
    using sub gen_perms_in_range by blast
  have s: "get_expected_times valid ?df = Inr ?sums"
    using rng by (rule get_expected_times_in_range)
  from np_argmin_spec [of ?sums] ne obtain k where
    k: "np_argmin ?sums = Inr k" "k < length valid" by auto
  have g: "py_getitem valid (int k) = Inr (valid ! k)"
    using k by (simp add: py_getitem_in_range)
  have best: "valid ! k \<in> set valid" using k by simp
  then have brng: "\<forall>i\<in>set (valid ! k). 1 \<le> i \<and> i \<le> int (length ?df)" using rng by blast
  have blen: "length (valid ! k) = length df"
    using best sub length_gen_perms_elem [of "valid ! k" ?df] by auto
  let ?names = "map (\<lambda>i. Task (df ! nat (i - 1))) (valid ! k)"
  have names_eq: "map (\<lambda>i. Task (?df ! nat (i - 1))) (valid ! k) = ?names"
  proof (rule map_cong [OF refl])
    fix i assume "i \<in> set (valid ! k)"
    then have i: "nat (i - 1) < length df" using brng by auto
    then have "map Task ?df ! nat (i - 1) = map Task df ! nat (i - 1)" by simp
    then show "Task (?df ! nat (i - 1)) = Task (df ! nat (i - 1))"
      using i by (simp only: nth_map length_switch_from_names)
  qed
  have n: "present_task_names (valid ! k) ?df = Inr ?names"
    using present_task_names_in_range [OF brng] by (simp only: names_eq)
  have in_tasks: "\<forall>c\<in>set ?names. c \<in> set (map Task ?df)"
  proof
    fix c assume "c \<in> set ?names"
    then obtain i where i: "i \<in> set (valid ! k)" "c = Task (df ! nat (i - 1))" by auto
    then have "nat (i - 1) < length df" using brng by auto
    then show "c \<in> set (map Task ?df)" using i by auto
  qed
  let ?idx = "map (\<lambda>c. the (name_to_row_dict ?df c) - 1) ?names"
  have ni: "names_to_index (name_to_row_dict ?df) ?names = Inr ?idx"
    using in_tasks name_to_row_task [of _ ?df] by (intro names_to_index_total) blast
  have irng: "\<forall>i\<in>set ?idx. 0 \<le> i \<and> i < int (length ?df)"
  proof
    fix i assume "i \<in> set ?idx"
    then obtain c where c: "c \<in> set ?names" "i = the (name_to_row_dict ?df c) - 1" by auto
    with in_tasks name_to_row_task [of c ?df] show "0 \<le> i \<and> i < int (length ?df)" by auto
  qed
  have ine: "?idx \<noteq> []" using blen df by auto
  from simulate_failures_in_range [OF irng ine, of rv] obtain hist where
    h: "simulate_failures rv ?df ?idx = Inr hist" by blast
  have z: "py_getitem (sort ?sums) 0 = Inr (sort ?sums ! 0)"
    using ne by (intro py_getitem_in_range [of 0, simplified]) (cases valid, simp_all)
  have "snd (main rv df)
        = Inr \<lparr>best_order = valid ! k, best_df = ?names,
               expected_time = sort ?sums ! 0,
               success_prob = prod_list (map (\<lambda>p. 1 - p) (map Probability df)),
               sorted_sums = sort ?sums, hist_vals = hist\<rparr>"
    unfolding main_def Let_def snd_conv v sum.case s k(1) g n ni if_not_P [OF ine] h z by simp
  then show ?thesis using k(1) by blast
qed

section \<open>Feasibility\<close>

lemma cell_in_prefix:
  assumes "k < length perm"
  shows "cell_in d (0 # take (Suc k) perm)
         \<longleftrightarrow> d = Num 0 \<or> (\<exists>j\<le>k. d = Num (real_of_int (perm ! j)))"
proof -
  have "set (take (Suc k) perm) = (!) perm ` {0..<Suc k}"
    using assms by (intro nth_image [symmetric]) simp
  then show ?thesis by (auto simp: cell_in_iff less_Suc_eq_le)
qed

lemma check_perm_accepts_iff:
  assumes "\<forall>i\<in>set perm. 1 \<le> i \<and> i \<le> int (length deps)"
  shows "check_perm perm deps
         = Inr (\<forall>k<length perm. \<forall>d\<in>set (deps ! nat (perm ! k - 1)).
                  d = Num 0 \<or> (\<exists>j\<le>k. d = Num (real_of_int (perm ! j))))"
  unfolding check_perm_in_range [OF assms] by (simp add: cell_in_prefix)

lemma check_perm_feasible_without_self_dependency:
  assumes "\<forall>i\<in>set perm. 1 \<le> i \<and> i \<le> int (length deps)"
    and "\<forall>i<length deps. Num (real (Suc i)) \<notin> set (deps ! i)"
  shows "check_perm perm deps = Inr (feasible perm deps)"
proof -
  have "(\<exists>j\<le>k. d = Num (real_of_int (perm ! j))) \<longleftrightarrow> (\<exists>j<k. d = Num (real_of_int (perm ! j)))"
    if k: "k < length perm" and d: "d \<in> set (deps ! nat (perm ! k - 1))" for k d
  proof -
    have r: "1 \<le> perm ! k" "perm ! k \<le> int (length deps)" using assms(1) k by auto
    then have "nat (perm ! k - 1) < length deps" by auto
    with assms(2) have "Num (real (Suc (nat (perm ! k - 1)))) \<notin> set (deps ! nat (perm ! k - 1))"
      by blast
    moreover have "real (Suc (nat (perm ! k - 1))) = real_of_int (perm ! k)"
      using r by (simp add: of_nat_nat)
    ultimately have "d \<noteq> Num (real_of_int (perm ! k))" using d by metis
    then show ?thesis by (auto simp: le_less)
  qed
  then show ?thesis
    unfolding check_perm_accepts_iff [OF assms(1)] feasible_def by auto
qed

section \<open>The simulator loop and the replacement of names\<close>

lemma sim_step_eq:
  assumes "\<forall>j rate n. length (rv j rate n) = n"
  shows "sim_step rv tm s (j, rate)
         = \<lparr>totals = totals s @ [map (\<lambda>x. prior_task_time s + x)
                                    (filter (\<lambda>x. x \<le> tm ! j) (rv j rate (success_count s)))],
            success_count = success_count s
                              - length (filter (\<lambda>x. x \<le> tm ! j) (rv j rate (success_count s))),
            prior_task_time = prior_task_time s + tm ! j\<rparr>"
  using assms by (simp add: sim_step_def Let_def filter_leq_def add.commute)

lemma sim_loop_samples:
  assumes len: "\<forall>j rate n. length (rv j rate n) = n"
  shows "j + length ls \<le> length tm \<Longrightarrow>
     concat (totals (foldl (sim_step rv tm) s (enumerate j ls)))
     = concat (totals s)
       @ failure_samples rv j (success_count s) (prior_task_time s) (zip (drop j tm) ls)"
proof (induction ls arbitrary: s j)
  case Nil
  show ?case by simp
next
  case (Cons l ls)
  have j: "j < length tm" using Cons.prems by simp
  then have d: "drop j tm = tm ! j # drop (Suc j) tm" by (simp add: Cons_nth_drop_Suc)
  have ih: "concat (totals (foldl (sim_step rv tm) (sim_step rv tm s (j, l)) (enumerate (Suc j) ls)))
        = concat (totals (sim_step rv tm s (j, l)))
          @ failure_samples rv (Suc j) (success_count (sim_step rv tm s (j, l)))
              (prior_task_time (sim_step rv tm s (j, l))) (zip (drop (Suc j) tm) ls)"
    using Cons.prems by (intro Cons.IH) simp
  have "concat (totals (foldl (sim_step rv tm) s (enumerate j (l # ls))))
        = concat (totals (foldl (sim_step rv tm) (sim_step rv tm s (j, l)) (enumerate (Suc j) ls)))"
    by simp
  also note ih
  also have "concat (totals (sim_step rv tm s (j, l)))
          @ failure_samples rv (Suc j) (success_count (sim_step rv tm s (j, l)))
              (prior_task_time (sim_step rv tm s (j, l))) (zip (drop (Suc j) tm) ls)
        = concat (totals s)
          @ failure_samples rv j (success_count s) (prior_task_time s) (zip (drop j tm) (l # ls))"
    unfolding d sim_step_eq [OF len] by (simp add: Let_def)
  finally show ?case .
qed

lemma simulate_failures_samples:
  assumes len: "\<forall>j rate n. length (rv j rate n) = n"
    and rng: "\<forall>i\<in>set index. 0 \<le> i \<and> i < int (length df)" and ne: "index \<noteq> []"
  shows "simulate_failures rv df index
         = Inr (failure_samples rv 0 50000 0
                  (zip (map (\<lambda>i. Time (df ! nat i)) index)
                       (get_lambdas (map (\<lambda>i. Time (df ! nat i)) index)
                                    (map (\<lambda>i. Probability (df ! nat i)) index))))"
proof -
  let ?time = "map (\<lambda>i. Time (df ! nat i)) index"
  let ?prob = "map (\<lambda>i. Probability (df ! nat i)) index"
  let ?ls = "get_lambdas ?time ?prob"
  let ?final = "foldl (sim_step rv ?time)
                  \<lparr>totals = [], success_count = 50000, prior_task_time = 0\<rparr> (enumerate 0 ?ls)"
  have "map (\<lambda>i. map Probability df ! nat i) index = ?prob"
    by (rule map_cong) (use rng in auto)
  then have a: "np_take (map Probability df) index = Inr ?prob"
    using np_take_in_range [of index "map Probability df"] rng by simp
  have "map (\<lambda>i. map Time df ! nat i) index = ?time"
    by (rule map_cong) (use rng in auto)
  then have b: "np_take (map Time df) index = Inr ?time"
    using np_take_in_range [of index "map Time df"] rng by simp
  have l: "length ?ls = length index"
    by (simp add: get_lambdas_def vec_mul_def)
  have "length (totals ?final) = length index"
    by (simp add: length_totals_foldl l)
  then have t: "totals ?final \<noteq> []" using ne by auto
  have "concat (totals ?final)
        = concat (totals \<lparr>totals = [], success_count = 50000, prior_task_time = 0\<rparr>)
          @ failure_samples rv 0
              (success_count \<lparr>totals = [], success_count = 50000, prior_task_time = 0\<rparr>)
              (prior_task_time \<lparr>totals = [], success_count = 50000, prior_task_time = 0\<rparr>)
              (zip (drop 0 ?time) ?ls)"
    by (rule sim_loop_samples [OF len]) (simp add: l)
  then have c: "concat (totals ?final) = failure_samples rv 0 50000 0 (zip ?time ?ls)"
    by simp
  show ?thesis
    unfolding simulate_failures_def a b sum.case Let_def np_hstack_def
    using t c by simp
qed

lemma df_replace_non_task:
  assumes "c \<notin> set (map Task df)"
  shows "df_replace (name_to_row_dict df) c = c"
proof -
  have "c \<notin> fst ` set (rev (zip (map Task df) (map int [1..<length df + 1])))"
    using assms by (auto dest: set_zip_leftD)
  then have "name_to_row_dict df c = None"
    unfolding name_to_row_dict_def py_dict_def by (simp only: map_of_eq_None_iff not_False_eq_True)
  then show ?thesis by (simp add: df_replace_def)
qed

lemma df_replace_task:
  assumes "c \<in> set (map Task df)"
  shows "\<exists>v. df_replace (name_to_row_dict df) c = Num (real_of_int v)
             \<and> 1 \<le> v \<and> v \<le> int (length df) \<and> Task (df ! nat (v - 1)) = c"
proof -
  from name_to_row_task [OF assms] obtain v where
    v: "name_to_row_dict df c = Some v" "1 \<le> v" "v \<le> int (length df)" by blast
  then have "(c, v) \<in> set (zip (map Task df) (map int [1..<length df + 1]))"
    unfolding name_to_row_dict_def py_dict_def by (auto dest!: map_of_SomeD simp del: upt_Suc)
  then obtain j where j: "j < length df" "map Task df ! j = c" "map int [1..<length df + 1] ! j = v"
    by (auto simp: set_zip simp del: upt_Suc)
  then have "v = int j + 1" by (simp del: upt_Suc)
  then have "Task (df ! nat (v - 1)) = c" using j by simp
  then show ?thesis using v by (simp add: df_replace_def)
qed

lemma map_Deps_switch_from_names:
  "map Deps (switch_from_names df) = map (\<lambda>r. map (df_replace (name_to_row_dict df)) (Deps r)) df"
  by (simp add: switch_from_names_def Let_def)

section \<open>Outcomes of \<open>main\<close>\<close>

lemma switch_from_names_unchanged:
  assumes "\<forall>r\<in>set df. \<forall>d\<in>set (Deps r). d \<notin> set (map Task df)"
  shows "switch_from_names df = df"
proof -
  have "map (df_replace (name_to_row_dict df)) (Deps r) = Deps r" if "r \<in> set df" for r
    using assms that by (intro map_idI df_replace_non_task) blast
  then show ?thesis
    unfolding switch_from_names_def Let_def by (intro map_idI) simp
qed

lemma check_perm_no_deps:
  assumes "\<forall>i\<in>set perm. 1 \<le> i \<and> i \<le> int (length deps)"
    and "\<forall>row\<in>set deps. \<forall>d\<in>set row. d = Num 0"
  shows "check_perm perm deps = Inr True"
proof -
  have "d = Num 0" if "k < length perm" "d \<in> set (deps ! nat (perm ! k - 1))" for k d
  proof -
    have "perm ! k \<in> set perm" using that(1) by simp
    then have "1 \<le> perm ! k \<and> perm ! k \<le> int (length deps)" using assms(1) by blast
    then have "nat (perm ! k - 1) < length deps" by linarith
    then have "deps ! nat (perm ! k - 1) \<in> set deps" by simp
    then show ?thesis using assms(2) that(2) by blast
  qed
  then show ?thesis unfolding check_perm_accepts_iff [OF assms(1)] by auto
qed

lemma validate_perms_no_deps:
  assumes "\<forall>r\<in>set df. \<forall>d\<in>set (Deps r). d = Num 0"
  shows "validate_perms (gen_perms df) (map Deps df) = Inr (gen_perms df)"
proof -
  have "check_perm perm (map Deps df) = Inr True" if "perm \<in> set (gen_perms df)" for perm
    using gen_perms_in_range [OF that] assms by (intro check_perm_no_deps) auto
  then have "filter (\<lambda>perm. check_perm perm (map Deps df) = Inr True) (gen_perms df) = gen_perms df"
    by (simp add: filter_id_conv)
  then show ?thesis by (simp add: validate_gen_perms)
qed

lemma gen_perms_nonempty: "gen_perms df \<noteq> []"
proof -
  have "length (gen_perms df) \<noteq> 0" unfolding length_gen_perms by simp
  then show ?thesis by auto
qed

lemma main_no_deps:
  assumes df: "df \<noteq> []" and names: "Num 0 \<notin> set (map Task df)"
    and deps: "\<forall>r\<in>set df. \<forall>d\<in>set (Deps r). d = Num 0"
  shows "\<exists>rep. snd (main rv df) = Inr rep \<and> length (sorted_sums rep) = fact (length df)"
proof -
  have sw: "switch_from_names df = df"
    using names deps by (intro switch_from_names_unchanged) auto
  have v: "validate_perms (gen_perms (switch_from_names df)) (map Deps (switch_from_names df))
           = Inr (gen_perms df)"
    unfolding sw using deps by (rule validate_perms_no_deps)
  from main_some_valid [OF v gen_perms_nonempty df, of rv]
  show ?thesis by (auto simp: length_gen_perms)
qed

lemma feasible_orderings_scored:
  "\<exists>valid ts. validate_perms (gen_perms df) (map Deps df) = Inr valid
      \<and> get_expected_times valid df = Inr ts \<and> length ts = length valid"
proof -
  let ?valid = "filter (\<lambda>perm. check_perm perm (map Deps df) = Inr True) (gen_perms df)"
  have "\<forall>perm\<in>set ?valid. \<forall>i\<in>set perm. 1 \<le> i \<and> i \<le> int (length df)"
    using gen_perms_in_range [of _ df] by auto
  then have "get_expected_times ?valid df = Inr (map (perm_time df) ?valid)"
    by (rule get_expected_times_in_range)
  then show ?thesis using validate_gen_perms [of df] by force
qed

lemma main_first_minimum:
  assumes df: "df \<noteq> []"
    and v: "validate_perms (gen_perms (switch_from_names df)) (map Deps (switch_from_names df))
            = Inr valid"
    and ne: "valid \<noteq> []"
  shows "\<exists>rep ts k. snd (main rv df) = Inr rep
          \<and> get_expected_times valid (switch_from_names df) = Inr ts
          \<and> length ts = length valid
          \<and> k < length valid \<and> best_order rep = valid ! k
          \<and> (\<forall>j<length valid. ts ! k \<le> ts ! j)
          \<and> (\<forall>j<k. ts ! k < ts ! j)
          \<and> sorted_sums rep = sort ts
          \<and> expected_time rep = sorted_sums rep ! 0
          \<and> expected_time rep = ts ! k"
proof -
  let ?df = "switch_from_names df"
  let ?sums = "map (perm_time ?df) valid"
  have valid: "valid = filter (\<lambda>perm. check_perm perm (map Deps ?df) = Inr True) (gen_perms ?df)"
    using v by (simp add: validate_gen_perms)
  have rng: "\<forall>perm\<in>set valid. \<forall>i\<in>set perm. 1 \<le> i \<and> i \<le> int (length ?df)"
  proof
    fix perm assume "perm \<in> set valid"
    then have "perm \<in> set (gen_perms ?df)" by (simp add: valid)
    then show "\<forall>i\<in>set perm. 1 \<le> i \<and> i \<le> int (length ?df)" by (rule gen_perms_in_range)
  qed
  have s: "get_expected_times valid ?df = Inr ?sums"
    using rng by (rule get_expected_times_in_range)
  from main_some_valid [OF v ne df, of rv] obtain k hist where
    k: "np_argmin ?sums = Inr k" and
    m: "snd (main rv df)
        = Inr \<lparr>best_order = valid ! k,
               best_df = map (\<lambda>i. Task (df ! nat (i - 1))) (valid ! k),
               expected_time = sort ?sums ! 0,
               success_prob = prod_list (map (\<lambda>p. 1 - p) (map Probability df)),
               sorted_sums = sort ?sums, hist_vals = hist\<rparr>"
    by blast
  from np_argmin_spec [of ?sums] ne k have
    kp: "k < length ?sums" "\<forall>j<length ?sums. ?sums ! k \<le> ?sums ! j" "\<forall>j<k. ?sums ! k < ?sums ! j"
    by auto
  have h: "sort ?sums ! 0 = ?sums ! k" using kp(1,2) by (rule sort_head_min)
  show ?thesis
    apply (rule exI [where x = "\<lparr>best_order = valid ! k,
               best_df = map (\<lambda>i. Task (df ! nat (i - 1))) (valid ! k),
               expected_time = sort ?sums ! 0,
               success_prob = prod_list (map (\<lambda>p. 1 - p) (map Probability df)),
               sorted_sums = sort ?sums, hist_vals = hist\<rparr>"])
    apply (rule exI [where x = ?sums])
    apply (rule exI [where x = k])
    using m s kp h by simp
qed

section \<open>Every ordering once\<close>

lemma set_remove_nth:
  assumes "distinct pool" "i < length pool"
  shows "set (take i pool @ drop (Suc i) pool) = set pool - {pool ! i}"
    and "distinct (take i pool @ drop (Suc i) pool)"
proof -
  have p: "pool = take i pool @ pool ! i # drop (Suc i) pool"
    using assms(2) by (rule id_take_nth_drop)
  have d: "distinct (take i pool @ pool ! i # drop (Suc i) pool)"
    by (subst p [symmetric]) (rule assms(1))
  then show "distinct (take i pool @ drop (Suc i) pool)" by auto
  have "set pool = set (take i pool @ pool ! i # drop (Suc i) pool)"
    by (rule arg_cong [OF p])
  then show "set (take i pool @ drop (Suc i) pool) = set pool - {pool ! i}"
    using d by auto
qed

lemma set_permutations_n:
  "distinct pool \<Longrightarrow> length pool = r \<Longrightarrow>
   set (permutations_n r pool) = {q. distinct q \<and> set q = set pool}"
proof (induction r arbitrary: pool)
  case 0
  then show ?case by auto
next
  case (Suc r)
  have ih: "set (permutations_n r (take i pool @ drop (Suc i) pool))
            = {q. distinct q \<and> set q = set pool - {pool ! i}}" if "i < length pool" for i
  proof -
    have "set (permutations_n r (take i pool @ drop (Suc i) pool))
          = {q. distinct q \<and> set q = set (take i pool @ drop (Suc i) pool)}"
      using Suc.prems that set_remove_nth(2) [of pool i] by (intro Suc.IH) auto
    then show ?thesis using set_remove_nth(1) [OF Suc.prems(1) that] by simp
  qed
  show ?case
  proof (rule set_eqI, rule iffI)
    fix q assume "q \<in> set (permutations_n (Suc r) pool)"
    then obtain i q' where i: "i < length pool" and q: "q = pool ! i # q'"
      and q': "q' \<in> set (permutations_n r (take i pool @ drop (Suc i) pool))"
      by auto
    from q' ih [OF i] have dq': "distinct q'" and sq': "set q' = set pool - {pool ! i}"
      by blast+
    have m: "pool ! i \<in> set pool" using i by simp
    have "pool ! i \<notin> set q'" unfolding sq' by blast
    then have "distinct q" unfolding q using dq' by simp
    moreover have "set q = set pool" unfolding q list.set sq' using m by blast
    ultimately show "q \<in> {q. distinct q \<and> set q = set pool}" by blast
  next
    fix q assume "q \<in> {q. distinct q \<and> set q = set pool}"
    then have dq: "distinct q" and sq: "set q = set pool" by auto
    have "pool \<noteq> []" using Suc.prems by auto
    then have "q \<noteq> []" using sq by auto
    then obtain x q' where q: "q = x # q'" by (cases q) auto
    then have "x \<in> set pool" using sq by auto
    then obtain i where i: "i < length pool" "pool ! i = x" by (auto simp: in_set_conv_nth)
    have nx: "x \<notin> set q'" and dq': "distinct q'" using dq unfolding q by simp_all
    have "insert x (set q') = set pool" using sq unfolding q by simp
    then have "set q' = set pool - {x}" using nx by blast
    then have "q' \<in> {q. distinct q \<and> set q = set pool - {pool ! i}}"
      using dq' i(2) by blast
    then have "q' \<in> set (permutations_n r (take i pool @ drop (Suc i) pool))"
      by (simp only: ih [OF i(1)])
    then show "q \<in> set (permutations_n (Suc r) pool)" using i q by auto
  qed
qed

lemma set_gen_perms:
  "set (gen_perms df) = {perm. distinct perm \<and> set perm = {1..int (length df)}}"
proof -
  let ?pool = "map int [1..<length df + 1]"
  have d: "distinct ?pool" by (simp add: distinct_map del: upt_Suc)
  have s0: "set ?pool = int ` {1..<length df + 1}" by (simp del: upt_Suc)
  have s: "set ?pool = {1..int (length df)}"
    unfolding s0
  proof (rule set_eqI, rule iffI)
    fix x assume "x \<in> int ` {1..<length df + 1}"
    then show "x \<in> {1..int (length df)}" by auto
  next
    fix x assume x: "x \<in> {1..int (length df)}"
    then have "x = int (nat x)" "nat x \<in> {1..<length df + 1}" by auto
    then show "x \<in> int ` {1..<length df + 1}" by (rule image_eqI)
  qed
  have "set (permutations_n (length ?pool) ?pool) = {q. distinct q \<and> set q = set ?pool}"
    using d by (intro set_permutations_n) simp_all
  then show ?thesis
    unfolding gen_perms_def Let_def itertools_permutations_def s .
qed

lemma distinct_gen_perms: "distinct (gen_perms df)"
proof -
  let ?A = "{1..int (length df)}"
  have "{perm. distinct perm \<and> set perm = ?A}
        = {xs. length xs = card ?A \<and> distinct xs \<and> set xs \<subseteq> ?A}"
  proof (rule set_eqI, rule iffI)
    fix xs assume "xs \<in> {perm. distinct perm \<and> set perm = ?A}"
    then show "xs \<in> {xs. length xs = card ?A \<and> distinct xs \<and> set xs \<subseteq> ?A}"
      using distinct_card [of xs] by auto
  next
    fix xs assume "xs \<in> {xs. length xs = card ?A \<and> distinct xs \<and> set xs \<subseteq> ?A}"
    then have l: "length xs = card ?A" and d: "distinct xs" and s: "set xs \<subseteq> ?A" by auto
    have "card (set xs) = card ?A" using l d distinct_card [of xs] by simp
    then have "set xs = ?A" using s by (intro card_subset_eq) auto
    then show "xs \<in> {perm. distinct perm \<and> set perm = ?A}" using d by simp
  qed
  then have "card (set (gen_perms df))
             = card {xs. length xs = card ?A \<and> distinct xs \<and> set xs \<subseteq> ?A}"
    by (simp only: set_gen_perms)
  also have "\<dots> = \<Prod>{card ?A - card ?A + 1 .. card ?A}"
    by (rule card_lists_distinct_length_eq) simp_all
  also have "\<dots> = fact (length df)"
    by (simp add: fact_prod)
  finally have "card (set (gen_perms df)) = length (gen_perms df)"
    by (simp add: length_gen_perms)
  then show ?thesis by (rule card_distinct)
qed

lemma main_no_deps_scores_all:
  assumes df: "df \<noteq> []" and names: "Num 0 \<notin> set (map Task df)"
    and deps: "\<forall>r\<in>set df. \<forall>d\<in>set (Deps r). d = Num 0"
  shows "\<exists>rep ts. snd (main rv df) = Inr rep
           \<and> get_expected_times (gen_perms df) df = Inr ts
           \<and> length ts = fact (length df) \<and> sorted_sums rep = sort ts"
proof -
  have sw: "switch_from_names df = df"
    using names deps by (intro switch_from_names_unchanged) auto
  have v: "validate_perms (gen_perms (switch_from_names df)) (map Deps (switch_from_names df))
           = Inr (gen_perms df)"
    unfolding sw using deps by (rule validate_perms_no_deps)
  have g: "get_expected_times (gen_perms df) df = Inr (map (perm_time df) (gen_perms df))"
    using gen_perms_in_range [of _ df] by (intro get_expected_times_in_range) blast
  from main_some_valid [OF v gen_perms_nonempty df, of rv] obtain rep where
    "snd (main rv df) = Inr rep" "sorted_sums rep = sort (map (perm_time df) (gen_perms df))"
    unfolding sw by force
  then show ?thesis using g by (simp add: length_gen_perms)
qed

lemma scoring_and_selection_total:
  "\<exists>valid ts. validate_perms (gen_perms df) (map Deps df) = Inr valid
      \<and> get_expected_times valid df = Inr ts \<and> length ts = length valid
      \<and> (valid \<noteq> [] \<longrightarrow> (\<exists>k. np_argmin ts = Inr k \<and> k < length valid))"
proof -
  from feasible_orderings_scored [of df] obtain valid ts where
    a: "validate_perms (gen_perms df) (map Deps df) = Inr valid"
      "get_expected_times valid df = Inr ts" "length ts = length valid"
    by blast
  have "\<exists>k. np_argmin ts = Inr k \<and> k < length valid" if "valid \<noteq> []"
  proof -
    have "ts \<noteq> []" using that a(3) by auto
    from np_argmin_spec [OF this] show ?thesis using a(3) by auto
  qed
  then show ?thesis using a by blast
qed

section \<open>The example tables\<close>

lemmas eval_defs = switch_from_names_def name_to_row_dict_def py_dict_def df_replace_def
  gen_perms_def itertools_permutations_def check_perm_def py_getitem_def cell_in_def Let_def

lemma switch_from_names_forced_tasks: "switch_from_names forced_tasks =
     [\<lparr>Task = Str ''A'', Time = 2, Probability = 1 / 2, Deps = [Num 0]\<rparr>,
      \<lparr>Task = Str ''B'', Time = 3, Probability = 1 / 5, Deps = [Num 1]\<rparr>]"
  by (simp add: forced_tasks_def eval_defs)

lemma valid_perms_two_tasks:
  "validate_perms (gen_perms (switch_from_names two_tasks)) (map Deps (switch_from_names two_tasks)) = Inr [[1,2],[2,1]]"
  by (simp add: two_tasks_def eval_defs)

lemma valid_perms_forced_tasks:
  "validate_perms (gen_perms (switch_from_names forced_tasks)) (map Deps (switch_from_names forced_tasks)) = Inr [[1,2]]"
  by (simp add: forced_tasks_def eval_defs)

lemma valid_perms_cyclic_tasks:
  "validate_perms (gen_perms (switch_from_names cyclic_tasks)) (map Deps (switch_from_names cyclic_tasks)) = Inr []"
  by (simp add: cyclic_tasks_def eval_defs)

lemma valid_perms_certain_failure:
  "validate_perms (gen_perms (switch_from_names certain_failure)) (map Deps (switch_from_names certain_failure)) = Inr [[1]]"
  by (simp add: certain_failure_def eval_defs)

lemma twelve_tasks_facts:
  "twelve_tasks \<noteq> [] \<and> Num 0 \<notin> set (map Task twelve_tasks) \<and> (\<forall>r\<in>set twelve_tasks. \<forall>d\<in>set (Deps r). d = Num 0) \<and> length twelve_tasks = 12"
  by (simp add: twelve_tasks_def)

lemma fact_twelve: "fact (12::nat) = (479001600::nat)"
  by (simp add: fact_numeral)

section \<open>Claims about the expected-time evaluator\<close>

text \<open>
  C1: for every ordering of the tasks of a table whose failure probabilities lie strictly
  between 0 and 1 and whose durations are positive, the value that \<open>get_expected_times\<close>
  appends for the ordering is the closed-form expected total time, with the durations and
  probabilities taken in the ordering's sequence: the triangular-matrix computation equals
  the left-to-right closed form.
\<close>

theorem get_expected_times_closed_form:
  assumes "\<forall>perm\<in>set perms. \<forall>i\<in>set perm. 1 \<le> i \<and> i \<le> int (length df)"
    and "\<forall>r\<in>set df. 0 < Probability r \<and> Probability r < 1 \<and> 0 < Time r"
  shows "get_expected_times perms df
         = Inr (map (\<lambda>perm. closed_form_expected_time
                               (map (\<lambda>i. Time (df ! nat (i - 1))) perm)
                               (map (\<lambda>i. Probability (df ! nat (i - 1))) perm)) perms)"
  using assms(1)
proof (induction perms)
  case Nil
  show ?case by simp
next
  case (Cons perm perms)
  then have "\<forall>i\<in>set perm. 1 \<le> i \<and> i \<le> int (length df)" by simp
  then show ?case
    using Cons by (simp add: expected_time_of_perm_closed_form)
qed

theorem get_expected_times_closed_form_witness:
  "gen_perms two_tasks = [[1, 2], [2, 1]]
   \<and> get_expected_times (gen_perms two_tasks) two_tasks
       = Inr [closed_form_expected_time [2, 3] [1 / 2, 1 / 5],
              closed_form_expected_time [3, 2] [1 / 5, 1 / 2]]"
proof -
  have g: "gen_perms two_tasks = [[1, 2], [2, 1]]"
    by (simp add: gen_perms_def itertools_permutations_def two_tasks_def upt_rec)
  have a: "\<forall>perm\<in>set (gen_perms two_tasks). \<forall>i\<in>set perm. 1 \<le> i \<and> i \<le> int (length two_tasks)"
    unfolding g by (simp add: two_tasks_def)
  have b: "\<forall>r\<in>set two_tasks. 0 < Probability r \<and> Probability r < 1 \<and> 0 < Time r"
    by (simp add: two_tasks_def)
  show ?thesis
    using g get_expected_times_closed_form [OF a b]
    unfolding g by (simp add: two_tasks_def)
qed

text \<open>
  C10: for every probability vector with components strictly between 0 and 1, the success
  probability used in \<open>expected_time_eq\<close> and the per-step failure probabilities computed
  by \<open>prob_prod_arr\<close> sum to 1.
\<close>

theorem failure_weights_sum_to_one:
  assumes "\<forall>q\<in>set p. 0 < q \<and> q < 1"
  shows "prod_list (map (\<lambda>q. 1 - q) p)
           + sum_list (prob_prod_arr (expand_to_lower_tri_mat (map (\<lambda>q. 1 - q) p)) p) = 1"
  by (rule weights_sum)

theorem failure_weights_sum_to_one_witness:
  "prod_list (map (\<lambda>q. 1 - q) [1 / 5, 3 / 10, 2 / 5 :: real])
       + sum_list (prob_prod_arr (expand_to_lower_tri_mat (map (\<lambda>q. 1 - q) [1 / 5, 3 / 10, 2 / 5]))
                     [1 / 5, 3 / 10, 2 / 5]) = 1"
proof -
  have a: "\<forall>q\<in>set [1 / 5, 3 / 10, 2 / 5 :: real]. 0 < q \<and> q < 1" by simp
  show ?thesis
    by (rule failure_weights_sum_to_one [OF a])
qed

section \<open>Claims about the dependency validator\<close>

text \<open>
  C2: \<open>check_perm\<close> is claimed to accept an ordering exactly when it is feasible, every
  declared dependency of the task at position \<open>k\<close> occupying a position strictly earlier
  than \<open>k\<close>.  The loop appends the current task to \<open>prev_ind\<close> before it tests the
  task's dependencies, so a task that names itself as a dependency passes: on the one-task
  table whose task depends on itself, \<open>check_perm\<close> accepts the ordering \<open>(1)\<close>, which is
  not feasible.
\<close>

theorem check_perm_accepts_self_dependency:
  "check_perm [1] [[Num 1]] = Inr True \<and> \<not> feasible [1] [[Num 1]]"
  by (simp add: check_perm_def py_getitem_def cell_in_def feasible_def)

theorem check_perm_accepts_self_dependency_witness:
  "check_perm [1] [[Num 1]] = Inr True"
  by (rule conjunct1 [OF check_perm_accepts_self_dependency])

section \<open>Claims about the selector\<close>

text \<open>
  C3: for a table with at least one task and a non-empty list of feasible orderings,
  \<open>main\<close> returns a report whose selected ordering is a feasible ordering with an expected
  time less than or equal to that of every feasible ordering, the first such ordering in
  enumeration order, and the reported minimal expected time, the head of the sorted list of
  all the feasible orderings' expected times, is the selected ordering's expected time.
\<close>

theorem main_selects_first_minimum:
  assumes "df \<noteq> []"
    and "validate_perms (gen_perms (switch_from_names df)) (map Deps (switch_from_names df))
         = Inr valid"
    and "valid \<noteq> []"
  shows "\<exists>rep ts k. snd (main rv df) = Inr rep
          \<and> get_expected_times valid (switch_from_names df) = Inr ts
          \<and> length ts = length valid
          \<and> k < length valid \<and> best_order rep = valid ! k
          \<and> (\<forall>j<length valid. ts ! k \<le> ts ! j)
          \<and> (\<forall>j<k. ts ! k < ts ! j)
          \<and> sorted_sums rep = sort ts
          \<and> expected_time rep = sorted_sums rep ! 0
          \<and> expected_time rep = ts ! k"
  using assms by (rule main_first_minimum)

theorem main_selects_first_minimum_witness:
  "\<exists>rep ts k. snd (main (const_sampler 1) two_tasks) = Inr rep
          \<and> get_expected_times [[1, 2], [2, 1]] (switch_from_names two_tasks) = Inr ts
          \<and> length ts = length [[1, 2], [2, 1 :: int]]
          \<and> k < length [[1, 2], [2, 1 :: int]] \<and> best_order rep = [[1, 2], [2, 1]] ! k
          \<and> (\<forall>j<length [[1, 2], [2, 1 :: int]]. ts ! k \<le> ts ! j)
          \<and> (\<forall>j<k. ts ! k < ts ! j)
          \<and> sorted_sums rep = sort ts
          \<and> expected_time rep = sorted_sums rep ! 0
          \<and> expected_time rep = ts ! k"
proof -
  have a: "two_tasks \<noteq> []" by (simp add: two_tasks_def)
  have c: "[[1, 2], [2, 1 :: int]] \<noteq> []" by simp
  show ?thesis
    by (rule main_selects_first_minimum [OF a valid_perms_two_tasks c])
qed

text \<open>
  C4, as the code has it: whenever the validator accepts no ordering, that is, whenever
  \<open>validate_perms\<close> returns the empty list, \<open>main\<close> fails with the \<open>ValueError\<close> that
  \<open>np.argmin\<close> raises on the empty list of expected times; \<open>main\<close> has no check of its
  own for this case.
\<close>

theorem main_without_feasible_ordering:
  assumes "validate_perms (gen_perms (switch_from_names df)) (map Deps (switch_from_names df))
           = Inr []"
  shows "snd (main rv df) = Inl (ValueError ''attempt to get argmin of an empty sequence'')"
  using assms by (rule main_no_valid)

theorem main_without_feasible_ordering_witness:
  "validate_perms (gen_perms (switch_from_names cyclic_tasks))
     (map Deps (switch_from_names cyclic_tasks)) = Inr []
   \<and> snd (main (const_sampler 0) cyclic_tasks)
       = Inl (ValueError ''attempt to get argmin of an empty sequence'')"
  using valid_perms_cyclic_tasks
    main_without_feasible_ordering [OF valid_perms_cyclic_tasks, of "const_sampler 0"]
  by (rule conjI)

text \<open>
  C4, as claimed, asks for an explicit error of its own instead of the failure of an argmin
  on an empty collection.  On the cyclic table the outcome of \<open>main\<close> is that failure.
\<close>

theorem main_cyclic_argmin_error:
  "snd (main (const_sampler 1) cyclic_tasks)
   = Inl (ValueError ''attempt to get argmin of an empty sequence'')"
  by (rule main_no_valid [OF valid_perms_cyclic_tasks])

text \<open>
  C5, as the code has it: no check of the failure probabilities precedes or accompanies the
  optimization.  For every table, whatever its probabilities, the validator and the
  evaluator complete without raising, every ordering the validator accepts receives an
  expected-time value, and when at least one ordering is accepted \<open>np.argmin\<close> returns a
  position in the list of accepted orderings.
\<close>

theorem optimization_without_probability_check:
  "\<exists>valid ts. validate_perms (gen_perms (switch_from_names df)) (map Deps (switch_from_names df))
                 = Inr valid
      \<and> get_expected_times valid (switch_from_names df) = Inr ts
      \<and> length ts = length valid
      \<and> (valid \<noteq> [] \<longrightarrow> (\<exists>k. np_argmin ts = Inr k \<and> k < length valid))"
  by (rule scoring_and_selection_total)

theorem optimization_without_probability_check_witness:
  "\<exists>ts k. validate_perms (gen_perms (switch_from_names certain_failure))
             (map Deps (switch_from_names certain_failure)) = Inr [[1]]
      \<and> get_expected_times [[1]] (switch_from_names certain_failure) = Inr ts
      \<and> length ts = 1 \<and> np_argmin ts = Inr k \<and> k < 1"
  using optimization_without_probability_check [of certain_failure]
  unfolding valid_perms_certain_failure by auto

text \<open>
  C5, as claimed, asks that a table containing a failure probability outside the open
  interval from 0 to 1 is rejected with an error before any optimization work.  The table
  whose single task has probability 1 is validated, scored and reported.
\<close>

theorem main_certain_failure_not_rejected:
  "validate_perms (gen_perms (switch_from_names certain_failure))
     (map Deps (switch_from_names certain_failure)) = Inr [[1]]
   \<and> \<not> isl (get_expected_times [[1]] (switch_from_names certain_failure))
   \<and> \<not> isl (snd (main (const_sampler 1) certain_failure))"
proof -
  have ne: "certain_failure \<noteq> []" by (simp add: certain_failure_def)
  have "\<forall>perm\<in>set [[1]]. \<forall>i\<in>set perm. 1 \<le> i \<and> i \<le> int (length (switch_from_names certain_failure))"
    by (simp add: certain_failure_def)
  then have "\<not> isl (get_expected_times [[1]] (switch_from_names certain_failure))"
    by (simp only: get_expected_times_in_range sum.disc simp_thms)
  moreover from main_some_valid [OF valid_perms_certain_failure _ ne, of "const_sampler 1"]
  have "\<not> isl (snd (main (const_sampler 1) certain_failure))" by auto
  ultimately show ?thesis using valid_perms_certain_failure by blast
qed

section \<open>Claims about the enumerator\<close>

text \<open>
  C6, as the code has it: neither \<open>gen_perms\<close> nor \<open>main\<close> bounds the task count.  For
  every \<open>n\<close>, \<open>gen_perms\<close> yields every ordering of the task numbers \<open>1..n\<close> exactly once,
  \<open>n!\<close> orderings in all; and \<open>main\<close>, on a table of at least one task without
  dependencies whose names are not the empty sentinel, whose probabilities lie strictly
  between 0 and 1 and whose durations are positive, has \<open>get_expected_times\<close> score all of
  them and returns a report whose sorted list holds these \<open>n!\<close> expected times.
\<close>

theorem gen_perms_enumerates_all_orderings:
  "distinct (gen_perms df)
   \<and> set (gen_perms df) = {perm. distinct perm \<and> set perm = {1..int (length df)}}
   \<and> length (gen_perms df) = fact (length df)
   \<and> (df \<noteq> [] \<and> Num 0 \<notin> set (map Task df)
        \<and> (\<forall>r\<in>set df. 0 < Probability r \<and> Probability r < 1 \<and> 0 < Time r
                        \<and> (\<forall>d\<in>set (Deps r). d = Num 0))
       \<longrightarrow> (\<exists>rep ts. snd (main rv df) = Inr rep
                  \<and> get_expected_times (gen_perms df) df = Inr ts
                  \<and> length ts = fact (length df)
                  \<and> sorted_sums rep = sort ts))"
  using distinct_gen_perms [of df] set_gen_perms [of df] length_gen_perms [of df]
    main_no_deps_scores_all [of df rv]
  by blast

theorem gen_perms_enumerates_all_orderings_witness:
  "distinct (gen_perms two_tasks) \<and> length (gen_perms two_tasks) = 2
   \<and> (\<exists>rep ts. snd (main (const_sampler 1) two_tasks) = Inr rep
          \<and> get_expected_times (gen_perms two_tasks) two_tasks = Inr ts
          \<and> length ts = 2 \<and> sorted_sums rep = sort ts)"
  using gen_perms_enumerates_all_orderings [of two_tasks "const_sampler 1"]
  by (simp add: two_tasks_def numeral_2_eq_2)

text \<open>
  C6, as claimed, asks that a task count beyond the safe combinatorial bound is rejected or
  flagged.  For twelve tasks all 479001600 orderings are enumerated and \<open>main\<close> returns a
  report.
\<close>

theorem main_twelve_tasks_not_rejected:
  "length (gen_perms twelve_tasks) = 479001600
   \<and> \<not> isl (snd (main (const_sampler 1) twelve_tasks))"
proof -
  have "length (gen_perms twelve_tasks) = 479001600"
    using twelve_tasks_facts by (simp only: length_gen_perms fact_twelve)
  moreover from main_no_deps [of twelve_tasks "const_sampler 1"] twelve_tasks_facts
  have "\<not> isl (snd (main (const_sampler 1) twelve_tasks))" by auto
  ultimately show ?thesis by (rule conjI)
qed

section \<open>Claims about the sheet pre-processing\<close>

text \<open>
  C7: \<open>trim_df\<close> is claimed to remove exactly the all-empty rows and columns.  It keeps the
  rows before the first all-empty row and the columns before the first all-empty column,
  and when no row (column) is all-empty it keeps all rows (columns) but the last: a table
  with no empty row or column loses its last row and its last column, and a non-empty row
  after an all-empty row is lost.
\<close>

theorem trim_df_drops_nonempty_rows:
  "trim_df [[Str ''A'', Num 1], [Str ''B'', Num 2]] = [[Str ''A'']]
   \<and> trim_df [[Str ''A'', Num 1, Num 0], [Num 0, Num 0, Num 0], [Str ''B'', Num 2, Num 0]]
       = [[Str ''A'', Num 1]]"
  by (simp add: trim_df_def nonzero_extent_def zero_all_def np_where_def df_shape_def)

section \<open>Claims about the simulator\<close>

text \<open>
  C8: with a sampler that returns as many draws as it is asked for, each task step \<open>j\<close> of
  \<open>simulate_failures\<close> records exactly the draws that are at most the task's duration, each
  as the time elapsed before the task plus the draw, lowers the number of alive trials by
  the number of these failures, and advances the elapsed time by the task's duration; and
  for an ordering of at least one task the returned samples are the concatenation of the
  failure times recorded step by step, starting from 50000 alive trials at time 0.
\<close>

theorem simulate_failures_records_failures:
  assumes "\<forall>j rate n. length (rv j rate n) = n"
    and "\<forall>i\<in>set index. 0 \<le> i \<and> i < int (length df)"
    and "index \<noteq> []"
  shows "sim_step rv tm s (j, rate)
         = \<lparr>totals = totals s @ [map (\<lambda>x. prior_task_time s + x)
                                    (filter (\<lambda>x. x \<le> tm ! j) (rv j rate (success_count s)))],
            success_count = success_count s
                              - length (filter (\<lambda>x. x \<le> tm ! j) (rv j rate (success_count s))),
            prior_task_time = prior_task_time s + tm ! j\<rparr>
         \<and> simulate_failures rv df index
           = Inr (failure_samples rv 0 50000 0
                    (zip (map (\<lambda>i. Time (df ! nat i)) index)
                         (get_lambdas (map (\<lambda>i. Time (df ! nat i)) index)
                                      (map (\<lambda>i. Probability (df ! nat i)) index))))"
  using sim_step_eq [OF assms(1)] simulate_failures_samples [OF assms] by (rule conjI)

theorem simulate_failures_records_failures_witness:
  "sim_step (const_sampler 1) [3, 2]
       \<lparr>totals = [], success_count = 50000, prior_task_time = 0\<rparr> (0, 1)
   = \<lparr>totals = totals \<lparr>totals = [], success_count = 50000, prior_task_time = 0\<rparr>
              @ [map (\<lambda>x. prior_task_time
                              \<lparr>totals = [], success_count = 50000, prior_task_time = 0\<rparr> + x)
                   (filter (\<lambda>x. x \<le> [3, 2] ! 0)
                      (const_sampler 1 0 1
                         (success_count
                            \<lparr>totals = [], success_count = 50000, prior_task_time = 0\<rparr>)))],
      success_count = success_count \<lparr>totals = [], success_count = 50000, prior_task_time = 0\<rparr>
          - length (filter (\<lambda>x. x \<le> [3, 2] ! 0)
                      (const_sampler 1 0 1
                         (success_count
                            \<lparr>totals = [], success_count = 50000, prior_task_time = 0\<rparr>))),
      prior_task_time = prior_task_time
          \<lparr>totals = [], success_count = 50000, prior_task_time = 0\<rparr> + [3, 2] ! 0\<rparr>
   \<and> simulate_failures (const_sampler 1) two_tasks [1, 0]
     = Inr (failure_samples (const_sampler 1) 0 50000 0
              (zip (map (\<lambda>i. Time (two_tasks ! nat i)) [1, 0])
                   (get_lambdas (map (\<lambda>i. Time (two_tasks ! nat i)) [1, 0])
                                (map (\<lambda>i. Probability (two_tasks ! nat i)) [1, 0]))))"
proof -
  have a: "\<forall>j rate n. length (const_sampler 1 j rate n) = n" by (simp add: const_sampler_def)
  have b: "\<forall>i\<in>set [1, 0]. 0 \<le> i \<and> i < int (length two_tasks)" by (simp add: two_tasks_def)
  have c: "[1, 0 :: int] \<noteq> []" by simp
  show ?thesis by (rule simulate_failures_records_failures [OF a b c])
qed

section \<open>Claims about the effect on the task table\<close>

text \<open>
  C9, as the code has it: \<open>main\<close> changes the caller's table only in the dependency
  columns.  The task names, durations and probabilities keep their values, a dependency
  cell that is no task name keeps its value, and a dependency cell holding a task name
  becomes the 1-based row number of a task of that name.
\<close>

theorem main_table_effect:
  "map Task (fst (main rv df)) = map Task df
   \<and> map Time (fst (main rv df)) = map Time df
   \<and> map Probability (fst (main rv df)) = map Probability df
   \<and> map Deps (fst (main rv df)) = map (\<lambda>r. map (df_replace (name_to_row_dict df)) (Deps r)) df
   \<and> (\<forall>c. c \<notin> set (map Task df) \<longrightarrow> df_replace (name_to_row_dict df) c = c)
   \<and> (\<forall>c\<in>set (map Task df). \<exists>v. df_replace (name_to_row_dict df) c = Num (real_of_int v)
          \<and> 1 \<le> v \<and> v \<le> int (length df) \<and> Task (df ! nat (v - 1)) = c)"
proof -
  have "\<forall>c. c \<notin> set (map Task df) \<longrightarrow> df_replace (name_to_row_dict df) c = c"
    using df_replace_non_task by blast
  moreover have "\<forall>c\<in>set (map Task df). \<exists>v. df_replace (name_to_row_dict df) c = Num (real_of_int v)
          \<and> 1 \<le> v \<and> v \<le> int (length df) \<and> Task (df ! nat (v - 1)) = c"
    using df_replace_task by blast
  ultimately show ?thesis
    unfolding main_fst by (simp only: switch_from_names_cols map_Deps_switch_from_names simp_thms)
qed

theorem main_table_effect_witness:
  "map Task (fst (main (const_sampler 1) forced_tasks)) = [Str ''A'', Str ''B'']
   \<and> map Deps (fst (main (const_sampler 1) forced_tasks)) = [[Num 0], [Num 1]]"
  using main_table_effect [of "const_sampler 1" forced_tasks]
  by (simp add: forced_tasks_def eval_defs)

text \<open>
  C9, as claimed, asks that every cell of the caller's table holds the same value after
  \<open>main\<close> as before.  \<open>switch_from_names\<close> assigns into the table it is given: on the
  table in which B depends on A, the dependency cell of B holds the name A before the call
  and the row number 1 after it.
\<close>

theorem main_changes_dependency_cells:
  "fst (main (const_sampler 1) forced_tasks) \<noteq> forced_tasks"
  unfolding main_fst switch_from_names_forced_tasks by (simp add: forced_tasks_def)

end
